theory Spec2Isabelle
  imports Main "HOL-Library.AList" "HOL-Library.Sublist"
begin

section \<open>Overview\<close>

text \<open>
  A model of the class \<open>FilteredSelectMultiple\<close>, which turns a \<open>select multiple\<close>
  element into two panes, "available" and "chosen", with filter inputs and four buttons
  that move items between them. The model covers the state of the widget (the registry
  \<open>options\<close>, the partitions \<open>available\<close> and \<open>chosen\<close>), the options the panes
  show, the filter, the buttons' \<open>disabled\<close> property, the \<open>selected\<close> property of the
  original options, and the order in which a transfer writes to the page and dispatches
  its event. Class names, labels, icons, the injected style sheet, the placement of the
  widget in the document and \<open>destroy\<close> are left out.
\<close>

section \<open>Strings\<close>

text \<open>
  A string is a list of characters, and a character is a code unit below 256, read as
  the code point of that number (\<open>U+0000\<close> to \<open>U+00FF\<close>, the Basic Latin and Latin-1
  Supplement blocks). The widget uses five string primitives of the language: \<open>trim\<close>,
  \<open>toLowerCase\<close>, \<open>startsWith\<close>, \<open>includes\<close> and \<open>split(/\s+/)\<close>, and formats a
  non-negative integer in a template literal. On these code points the white space of
  \<open>trim\<close> and of \<open>\s\<close> is tab, line feed, vertical tab, form feed, carriage return
  (9 to 13), space (32) and the no-break space \<open>U+00A0\<close> (160). \<open>toLowerCase\<close> maps
  \<open>A\<close>..\<open>Z\<close> (65 to 90) and the capital letters \<open>U+00C0\<close>..\<open>U+00DE\<close> (192 to 222)
  other than the multiplication sign \<open>U+00D7\<close> (215) to the letter 32 code points
  further, and leaves every other one of these code points as it is.
\<close>

definition isWhiteSpace :: "char \<Rightarrow> bool" where
  "isWhiteSpace c = (let n = (of_char c :: nat) in (9 \<le> n \<and> n \<le> 13) \<or> n = 32 \<or> n = 160)"

definition lowerChar :: "char \<Rightarrow> char" where
  "lowerChar c =
     (let n = (of_char c :: nat)
      in if (65 \<le> n \<and> n \<le> 90) \<or> (192 \<le> n \<and> n \<le> 222 \<and> n \<noteq> 215)
         then char_of (n + 32) else c)"

definition toLowerCase :: "string \<Rightarrow> string" where
  "toLowerCase s = map lowerChar s"

definition trim :: "string \<Rightarrow> string" where
  "trim s = rev (dropWhile isWhiteSpace (rev (dropWhile isWhiteSpace s)))"

text \<open>
  \<open>haystack.startsWith(term)\<close> is \<^const>\<open>prefix\<close> \<open>term haystack\<close>;
  \<open>haystack.includes(needle)\<close> is \<open>includes_str haystack needle\<close>.
\<close>

fun includes_str :: "string \<Rightarrow> string \<Rightarrow> bool" where
  "includes_str [] needle = (needle = [])"
| "includes_str (c # cs) needle = (prefix needle (c # cs) \<or> includes_str cs needle)"

text \<open>
  \<open>s.split(/\s+/)\<close>: the pieces of \<open>s\<close> between the maximal runs of white space. A
  run at the start or at the end of \<open>s\<close> leaves an empty piece there, and the empty
  string splits into one empty piece.
\<close>

function split_ws :: "string \<Rightarrow> string list" where
  "split_ws s =
     (case dropWhile (\<lambda>c. \<not> isWhiteSpace c) s of
        [] \<Rightarrow> [s]
      | r # rest \<Rightarrow> takeWhile (\<lambda>c. \<not> isWhiteSpace c) s # split_ws (dropWhile isWhiteSpace (r # rest)))"
  by pat_completeness auto
termination
proof (relation "measure length", goal_cases)
  case 1
  show ?case by simp
next
  case (2 s r rest)
  have "isWhiteSpace r"
    using 2 hd_dropWhile[of "\<lambda>c. \<not> isWhiteSpace c" s] by auto
  then have "length (dropWhile isWhiteSpace (r # rest)) \<le> length rest"
    by (simp add: length_dropWhile_le)
  moreover have "length (r # rest) \<le> length s"
    using 2 length_dropWhile_le[of "\<lambda>c. \<not> isWhiteSpace c" s] by simp
  ultimately show ?case by simp
qed

declare split_ws.simps [simp del]

text \<open>The decimal digits of a non-negative integer, as a template literal prints it.\<close>

definition digitChar :: "nat \<Rightarrow> char" where
  "digitChar d = char_of (48 + d)"

fun decimal :: "nat \<Rightarrow> string" where
  "decimal n = (if n < 10 then [digitChar n] else decimal (n div 10) @ [digitChar (n mod 10)])"

declare decimal.simps [simp del]

section \<open>The filter\<close>

text \<open>
  \<open>_passesFilter(label, term)\<close>. The caller, \<open>_renderPane\<close>, passes the value of the
  pane's filter input trimmed and lower-cased (\<open>filterTerm\<close>), or the empty string when
  the widget has no filter inputs. Any \<open>filterMatchMode\<close> other than \<open>"startsWith"\<close>
  is the "contains" mode.
\<close>

definition filterTerm :: "string option \<Rightarrow> string" where
  "filterTerm input = (case input of None \<Rightarrow> [] | Some v \<Rightarrow> toLowerCase (trim v))"

definition passesFilter :: "string \<Rightarrow> string \<Rightarrow> string \<Rightarrow> bool" where
  "passesFilter filterMatchMode label term =
     (if term = [] then True
      else let haystack = toLowerCase label in
        if filterMatchMode = ''startsWith'' then prefix term haystack
        else let tokens = filter (\<lambda>t. t \<noteq> []) (split_ws term)
             in list_all (\<lambda>token. includes_str haystack token) tokens)"

section \<open>Data model\<close>

text \<open>
  An \<open>option\<close> element, of the original \<open>select\<close> or of a pane. Its \<open>dataset\<close> (the
  \<open>data-*\<close> attributes) is a list of name and value pairs with distinct names:
  reading a name is \<^const>\<open>map_of\<close>, writing one is \<^const>\<open>AList.update\<close>.
\<close>

type_synonym dataset = "(string \<times> string) list"

record html_option =
  o_value :: string
  o_text :: string
  o_disabled :: bool
  o_selected :: bool
  o_title :: string
  o_dataset :: dataset

text \<open>
  The entry \<open>this.options\<close> holds for a key. \<open>original\<close> refers to the \<open>option\<close>
  element of the original \<open>select\<close> the entry was built from: here, its position there.
\<close>

record meta =
  m_key :: string
  m_index :: nat
  m_value :: string
  m_label :: string
  m_disabled :: bool
  m_dataset :: dataset
  m_title :: string
  m_original :: nat

text \<open>
  The methods name a pane by the string \<open>"available"\<close> or \<open>"chosen"\<close> and a button by
  its action; every call passes one of these literals. \<open>type === "available" ? a : b\<close>
  is the choice between the cases \<open>Available\<close> and \<open>Chosen\<close>.
\<close>

datatype pane = Available | Chosen

datatype action = AddAll | AddSelected | RemoveSelected | RemoveAll

text \<open>What the widget does to the page, in the order it does it.\<close>

datatype effect = SyncToOriginal | RenderPane pane | DispatchChange

text \<open>
  What a listener of the \<open>change\<close> event finds when the event reaches it: the
  \<open>selected\<close> property of the original options, in their order, and the options of the
  two panes.
\<close>

record notification =
  n_selected :: "bool list"
  n_available :: "html_option list"
  n_chosen :: "html_option list"

text \<open>
  The widget. \<open>selectElement\<close> is the list of options of the original \<open>select\<close>;
  \<open>options\<close> is the \<open>Map\<close> from keys to entries, in insertion order;
  \<open>availableSelect\<close> and \<open>chosenSelect\<close> are the options the two panes show;
  \<open>availableFilter\<close> and \<open>chosenFilter\<close> are the values of the filter inputs
  (\<open>None\<close> when the widget was built without them); \<open>buttons\<close> gives the
  \<open>disabled\<close> property of each button; \<open>effects\<close> records the calls that write to
  the page or dispatch an event; \<open>dispatched\<close> records, for every \<open>change\<close> event
  dispatched on the original \<open>select\<close>, what its listeners find.
\<close>

record widget =
  selectElement :: "html_option list"
  showFilter :: bool
  filterMatchMode :: string
  preserveSelectionOrder :: bool
  options :: "(string \<times> meta) list"
  available :: "string list"
  chosen :: "string list"
  availableSelect :: "html_option list"
  chosenSelect :: "html_option list"
  availableFilter :: "string option"
  chosenFilter :: "string option"
  availableCounter :: string
  chosenCounter :: string
  buttons :: "action \<Rightarrow> bool"
  effects :: "effect list"
  dispatched :: "notification list"

fun partition_of :: "pane \<Rightarrow> widget \<Rightarrow> string list" where
  "partition_of Available w = available w"
| "partition_of Chosen w = chosen w"

fun set_partition :: "pane \<Rightarrow> string list \<Rightarrow> widget \<Rightarrow> widget" where
  "set_partition Available keys w = w\<lparr>available := keys\<rparr>"
| "set_partition Chosen keys w = w\<lparr>chosen := keys\<rparr>"

fun select_of :: "pane \<Rightarrow> widget \<Rightarrow> html_option list" where
  "select_of Available w = availableSelect w"
| "select_of Chosen w = chosenSelect w"

fun filter_of :: "pane \<Rightarrow> widget \<Rightarrow> string option" where
  "filter_of Available w = availableFilter w"
| "filter_of Chosen w = chosenFilter w"

section \<open>Building the state\<close>

definition MAX_SAFE_INTEGER :: nat where
  "MAX_SAFE_INTEGER = 9007199254740991"

text \<open>
  \<open>_sortByIndex(keys)\<close> sorts in place with the comparator \<open>aIndex - bIndex\<close>, where a
  key without an entry counts as \<open>Number.MAX_SAFE_INTEGER\<close>. \<open>Array.prototype.sort\<close> is
  stable, so the result is the stable sort by that index.
\<close>

definition indexOf :: "(string \<times> meta) list \<Rightarrow> string \<Rightarrow> nat" where
  "indexOf opts k = (case map_of opts k of None \<Rightarrow> MAX_SAFE_INTEGER | Some m \<Rightarrow> m_index m)"

definition sortByIndex :: "(string \<times> meta) list \<Rightarrow> string list \<Rightarrow> string list" where
  "sortByIndex opts keys = sort_key (indexOf opts) keys"

definition make_key :: "nat \<Rightarrow> string" where
  "make_key index = ''fsm-'' @ decimal index"

text \<open>The entry \<open>_buildState\<close> stores for the option at position \<open>index\<close>.\<close>

definition make_meta :: "html_option \<Rightarrow> nat \<Rightarrow> meta" where
  "make_meta option index =
     \<lparr>m_key = make_key index, m_index = index, m_value = o_value option,
      m_label = o_text option, m_disabled = o_disabled option,
      m_dataset = o_dataset option, m_title = o_title option,
      m_original = index\<rparr>"

text \<open>The body of the \<open>forEach\<close> of \<open>_buildState\<close>, for the option at position \<open>index\<close>.\<close>

definition buildState_step :: "html_option \<Rightarrow> nat \<Rightarrow> widget \<Rightarrow> widget" where
  "buildState_step option index w =
     (let key = make_key index;
          w1 = w\<lparr>options := AList.update key (make_meta option index) (options w)\<rparr>
      in if o_selected option then w1\<lparr>chosen := chosen w1 @ [key]\<rparr>
         else w1\<lparr>available := available w1 @ [key]\<rparr>)"

fun buildState_loop :: "html_option list \<Rightarrow> nat \<Rightarrow> widget \<Rightarrow> widget" where
  "buildState_loop [] index w = w"
| "buildState_loop (option # rest) index w =
     buildState_loop rest (Suc index) (buildState_step option index w)"

definition buildState :: "widget \<Rightarrow> widget" where
  "buildState w =
     (let w1 = buildState_loop (selectElement w) 0 w;
          w2 = w1\<lparr>available := sortByIndex (options w1) (available w1)\<rparr>
      in if \<not> preserveSelectionOrder w2
         then w2\<lparr>chosen := sortByIndex (options w2) (chosen w2)\<rparr> else w2)"

section \<open>Buttons and rendering\<close>

text \<open>
  \<open>_setButtonState(action, disabled)\<close>: the \<open>disabled\<close> property of the button. The
  four buttons exist from \<open>_buildUI\<close> on, so the method never returns early.
\<close>

definition setButtonState :: "action \<Rightarrow> bool \<Rightarrow> widget \<Rightarrow> widget" where
  "setButtonState act disabled w = w\<lparr>buttons := (buttons w)(act := disabled)\<rparr>"

text \<open>
  \<open>!this.options.get(k)?.disabled\<close>: true for a key without an entry, since
  \<open>undefined?.disabled\<close> is \<open>undefined\<close>.
\<close>

definition notDisabled :: "(string \<times> meta) list \<Rightarrow> string \<Rightarrow> bool" where
  "notDisabled opts k = (case map_of opts k of None \<Rightarrow> True | Some m \<Rightarrow> \<not> m_disabled m)"

definition selectedOptions :: "html_option list \<Rightarrow> html_option list" where
  "selectedOptions select = filter o_selected select"

definition updateButtons :: "widget \<Rightarrow> widget" where
  "updateButtons w =
     (let hasAvailableSelection = (length (selectedOptions (availableSelect w)) > 0);
          hasChosenSelection = (length (selectedOptions (chosenSelect w)) > 0);
          hasAvailableItems = list_ex (notDisabled (options w)) (available w);
          hasChosenItems = list_ex (notDisabled (options w)) (chosen w)
      in setButtonState RemoveAll (\<not> hasChosenItems)
           (setButtonState AddAll (\<not> hasAvailableItems)
             (setButtonState RemoveSelected (\<not> hasChosenSelection)
               (setButtonState AddSelected (\<not> hasAvailableSelection) w))))"

text \<open>
  \<open>opt.dataset.key\<close> of every selected option of a pane, in document order;
  \<open>None\<close> is \<open>undefined\<close>, for an option without that attribute.
\<close>

definition getSelectedKeys :: "html_option list \<Rightarrow> string option list" where
  "getSelectedKeys select = map (\<lambda>opt. map_of (o_dataset opt) ''key'') (selectedOptions select)"

text \<open>
  The option \<open>_renderPane\<close> creates for a key with an entry: the key is written to
  \<open>dataset.key\<close> first, and the entries of \<open>meta.dataset\<close> are written to the
  dataset after it, in their order.
\<close>

definition renderOption :: "string option set \<Rightarrow> string \<Rightarrow> meta \<Rightarrow> html_option" where
  "renderOption previousSelection key m =
     (let option = \<lparr>o_value = m_value m, o_text = m_label m, o_disabled = m_disabled m,
                     o_selected = False, o_title = [],
                     o_dataset = AList.update ''key'' key []\<rparr>;
          option = (if m_title m \<noteq> [] then option\<lparr>o_title := m_title m\<rparr> else option);
          option = option\<lparr>o_dataset :=
                     fold (\<lambda>(attr, v) ds. AList.update attr v ds) (m_dataset m) (o_dataset option)\<rparr>
      in if Some key \<in> previousSelection then option\<lparr>o_selected := True\<rparr> else option)"

text \<open>
  \<open>_renderPane(type)\<close>. The counter of a pane always exists; its text is
  \<open>(visible / total)\<close> under a filter and \<open>(total)\<close> otherwise.
\<close>

definition counterText :: "string \<Rightarrow> nat \<Rightarrow> nat \<Rightarrow> string" where
  "counterText term visibleCount totalCount =
     (if term \<noteq> [] then ''('' @ decimal visibleCount @ '' / '' @ decimal totalCount @ '')''
      else ''('' @ decimal totalCount @ '')'')"

definition renderPane :: "pane \<Rightarrow> widget \<Rightarrow> widget" where
  "renderPane type w =
     (let select = select_of type w;
          keys = partition_of type w;
          term = filterTerm (filter_of type w);
          previousSelection = set (getSelectedKeys select);
          fragment = concat (map (\<lambda>key.
             case map_of (options w) key of
               None \<Rightarrow> []
             | Some m \<Rightarrow>
                 if term \<noteq> [] \<and> \<not> passesFilter (filterMatchMode w) (m_label m) term then []
                 else [renderOption previousSelection key m]) keys);
          visibleCount = length fragment;
          text = counterText term visibleCount (length keys);
          w1 = (case type of
                  Available \<Rightarrow> w\<lparr>availableSelect := fragment, availableCounter := text\<rparr>
                | Chosen \<Rightarrow> w\<lparr>chosenSelect := fragment, chosenCounter := text\<rparr>)
      in updateButtons (w1\<lparr>effects := effects w1 @ [RenderPane type]\<rparr>))"

definition render :: "widget \<Rightarrow> widget" where
  "render w = updateButtons (renderPane Chosen (renderPane Available w))"

section \<open>Transfers\<close>

text \<open>
  \<open>_syncToOriginal\<close> writes the \<open>selected\<close> property of the original option of every
  entry, in the order of the \<open>Map\<close>.
\<close>

definition syncToOriginal :: "widget \<Rightarrow> widget" where
  "syncToOriginal w =
     (let chosenSet = set (chosen w);
          els = fold (\<lambda>(k, m) els.
                   els[m_original m := (els ! m_original m)\<lparr>o_selected := (m_key m \<in> chosenSet)\<rparr>])
                 (options w) (selectElement w)
      in w\<lparr>selectElement := els, effects := effects w @ [SyncToOriginal]\<rparr>)"

definition dispatchChange :: "widget \<Rightarrow> widget" where
  "dispatchChange w =
     w\<lparr>effects := effects w @ [DispatchChange],
       dispatched := dispatched w @
         [\<lparr>n_selected = map o_selected (selectElement w),
           n_available = availableSelect w, n_chosen = chosenSelect w\<rparr>]\<rparr>"

text \<open>
  \<open>_transfer(keys, fromType, toType)\<close>. \<open>from\<close> and \<open>to\<close> are the arrays of the widget
  themselves, changed in place, so each step reads the partition the step before wrote.
\<close>

definition transfer :: "string list \<Rightarrow> pane \<Rightarrow> pane \<Rightarrow> widget \<Rightarrow> widget" where
  "transfer keys fromType toType w =
     (let keySet = set keys;
          remaining = filter (\<lambda>key. key \<notin> keySet) (partition_of fromType w);
          w1 = set_partition fromType remaining w;
          w2 = set_partition toType (partition_of toType w1 @ keys) w1;
          w3 = set_partition fromType (sortByIndex (options w2) (partition_of fromType w2)) w2;
          w4 = (if \<not> preserveSelectionOrder w3 \<or> toType = Available
                then set_partition toType (sortByIndex (options w3) (partition_of toType w3)) w3
                else w3)
      in dispatchChange (render (syncToOriginal w4)))"

text \<open>\<open>meta && !meta.disabled\<close>, for the entry of a key that may be \<open>undefined\<close>.\<close>

definition eligible :: "(string \<times> meta) list \<Rightarrow> string \<Rightarrow> bool" where
  "eligible opts key = (case map_of opts key of None \<Rightarrow> False | Some m \<Rightarrow> \<not> m_disabled m)"

definition moveSelected :: "pane \<Rightarrow> pane \<Rightarrow> widget \<Rightarrow> widget" where
  "moveSelected fromType toType w =
     (let fromSelect = select_of fromType w;
          keys = List.map_filter
                   (\<lambda>k. case k of None \<Rightarrow> None
                        | Some key \<Rightarrow> if eligible (options w) key then Some key else None)
                   (getSelectedKeys fromSelect)
      in if length keys > 0 then transfer keys fromType toType w else w)"

definition moveAll :: "pane \<Rightarrow> pane \<Rightarrow> widget \<Rightarrow> widget" where
  "moveAll fromType toType w =
     (let source = partition_of fromType w;
          keys = filter (eligible (options w)) source
      in if length keys > 0 then transfer keys fromType toType w else w)"

section \<open>Construction\<close>

text \<open>
  The element the constructor is given: a \<open>select\<close> with its \<open>multiple\<close> property and
  its options, or any other element. The recognised configuration options are optional;
  \<open>??\<close> gives each its default.
\<close>

datatype element = HTMLSelectElement bool "html_option list" | OtherElement

record config =
  cfg_showFilter :: "bool option"
  cfg_filterMatchMode :: "string option"
  cfg_preserveSelectionOrder :: "bool option"

datatype error = Error string

text \<open>
  \<open>_buildUI\<close> creates the two panes, empty, with a filter input each when
  \<open>showFilter\<close> is set, and the four buttons, enabled.
\<close>

definition buildUI :: "widget \<Rightarrow> widget" where
  "buildUI w =
     w\<lparr>availableSelect := [], chosenSelect := [],
       availableFilter := (if showFilter w then Some [] else None),
       chosenFilter := (if showFilter w then Some [] else None),
       availableCounter := [], chosenCounter := [],
       buttons := (\<lambda>act. False)\<rparr>"

definition init :: "widget \<Rightarrow> widget" where
  "init w = render (buildUI (buildState w))"

text \<open>The fields the constructor sets before it calls \<open>_init\<close>.\<close>

definition fresh :: "html_option list \<Rightarrow> bool \<Rightarrow> string \<Rightarrow> bool \<Rightarrow> widget" where
  "fresh els sf mode pso =
     \<lparr>selectElement = els, showFilter = sf, filterMatchMode = mode,
      preserveSelectionOrder = pso,
      options = [], available = [], chosen = [],
      availableSelect = [], chosenSelect = [],
      availableFilter = None, chosenFilter = None,
      availableCounter = [], chosenCounter = [],
      buttons = (\<lambda>act. False), effects = [], dispatched = []\<rparr>"

definition constructor :: "element \<Rightarrow> config \<Rightarrow> error + widget" where
  "constructor element opts =
     (case element of
        OtherElement \<Rightarrow> Inl (Error ''FilteredSelectMultiple requires a <select multiple> element'')
      | HTMLSelectElement multiple els \<Rightarrow>
          if \<not> multiple
          then Inl (Error ''FilteredSelectMultiple requires a <select multiple> element'')
          else Inr (init (fresh els
                 (case cfg_showFilter opts of None \<Rightarrow> True | Some b \<Rightarrow> b)
                 (case cfg_filterMatchMode opts of None \<Rightarrow> ''contains'' | Some m \<Rightarrow> m)
                 (case cfg_preserveSelectionOrder opts of None \<Rightarrow> False | Some b \<Rightarrow> b))))"

section \<open>Events\<close>

text \<open>
  The events \<open>_attachEvents\<close> listens to. \<open>Change p sel\<close>: the user changes the
  selection of pane \<open>p\<close>, so that the options at the positions \<open>sel\<close> are the selected
  ones. \<open>Input p v\<close>: the user edits the filter input of pane \<open>p\<close> to \<open>v\<close>, which
  schedules a render of the pane; \<open>FilterTimeout p\<close>: that timer fires. A click reaches
  the listener of a button only when the button is not disabled.
\<close>

datatype user_event =
  Click action | DblClick pane | EnterKey pane
  | Change pane "nat list" | Input pane string | FilterTimeout pane

fun other_pane :: "pane \<Rightarrow> pane" where
  "other_pane Available = Chosen"
| "other_pane Chosen = Available"

definition setSelection :: "nat list \<Rightarrow> html_option list \<Rightarrow> html_option list" where
  "setSelection sel select =
     map (\<lambda>(opt, i). opt\<lparr>o_selected := (i \<in> set sel)\<rparr>) (zip select [0..<length select])"

fun handle :: "user_event \<Rightarrow> widget \<Rightarrow> widget" where
  "handle (Click act) w =
     (if buttons w act then w
      else case act of
             AddAll \<Rightarrow> moveAll Available Chosen w
           | AddSelected \<Rightarrow> moveSelected Available Chosen w
           | RemoveSelected \<Rightarrow> moveSelected Chosen Available w
           | RemoveAll \<Rightarrow> moveAll Chosen Available w)"
| "handle (DblClick p) w = moveSelected p (other_pane p) w"
| "handle (EnterKey p) w = moveSelected p (other_pane p) w"
| "handle (Change Available sel) w =
     updateButtons (w\<lparr>availableSelect := setSelection sel (availableSelect w)\<rparr>)"
| "handle (Change Chosen sel) w =
     updateButtons (w\<lparr>chosenSelect := setSelection sel (chosenSelect w)\<rparr>)"
| "handle (Input Available v) w =
     (case availableFilter w of None \<Rightarrow> w | Some old \<Rightarrow> w\<lparr>availableFilter := Some v\<rparr>)"
| "handle (Input Chosen v) w =
     (case chosenFilter w of None \<Rightarrow> w | Some old \<Rightarrow> w\<lparr>chosenFilter := Some v\<rparr>)"
| "handle (FilterTimeout p) w = renderPane p w"

definition run :: "user_event list \<Rightarrow> widget \<Rightarrow> widget" where
  "run evs w = fold handle evs w"

section \<open>The earlier copy of the class\<close>

text \<open>
  The repository holds two copies of the class \<open>FilteredSelectMultiple\<close>. The
  definitions above follow the later one, which has the counters, the debounced filter
  and the \<open>AbortController\<close>. The earlier copy has the same \<open>_buildState\<close>,
  \<open>_sortByIndex\<close>, \<open>_passesFilter\<close>, \<open>_syncToOriginal\<close> and \<open>_dispatchChange\<close>;
  its other methods differ as follows. \<open>_updateButtons\<close> looks at the lengths of the
  partitions; \<open>_renderPane\<close> has no counter and does not refresh the buttons;
  \<open>_transfer\<close> renders before it writes the selection back; \<open>_moveAll\<close> moves every
  key of the partition.
\<close>

definition updateButtons_earlier :: "widget \<Rightarrow> widget" where
  "updateButtons_earlier w =
     (let hasAvailableSelection = (length (selectedOptions (availableSelect w)) > 0);
          hasChosenSelection = (length (selectedOptions (chosenSelect w)) > 0);
          hasAvailableItems = (length (available w) > 0);
          hasChosenItems = (length (chosen w) > 0)
      in setButtonState RemoveAll (\<not> hasChosenItems)
           (setButtonState AddAll (\<not> hasAvailableItems)
             (setButtonState RemoveSelected (\<not> hasChosenSelection)
               (setButtonState AddSelected (\<not> hasAvailableSelection) w))))"

definition renderPane_earlier :: "pane \<Rightarrow> widget \<Rightarrow> widget" where
  "renderPane_earlier type w =
     (let select = select_of type w;
          keys = partition_of type w;
          term = filterTerm (filter_of type w);
          previousSelection = set (getSelectedKeys select);
          rendered = concat (map (\<lambda>key.
             case map_of (options w) key of
               None \<Rightarrow> []
             | Some m \<Rightarrow>
                 if term \<noteq> [] \<and> \<not> passesFilter (filterMatchMode w) (m_label m) term then []
                 else [renderOption previousSelection key m]) keys);
          w1 = (case type of
                  Available \<Rightarrow> w\<lparr>availableSelect := rendered\<rparr>
                | Chosen \<Rightarrow> w\<lparr>chosenSelect := rendered\<rparr>)
      in w1\<lparr>effects := effects w1 @ [RenderPane type]\<rparr>)"

definition render_earlier :: "widget \<Rightarrow> widget" where
  "render_earlier w =
     updateButtons_earlier (renderPane_earlier Chosen (renderPane_earlier Available w))"

definition transfer_earlier :: "string list \<Rightarrow> pane \<Rightarrow> pane \<Rightarrow> widget \<Rightarrow> widget" where
  "transfer_earlier keys fromType toType w =
     (let keySet = set keys;
          remaining = filter (\<lambda>key. key \<notin> keySet) (partition_of fromType w);
          w1 = set_partition fromType remaining w;
          w2 = set_partition toType (partition_of toType w1 @ keys) w1;
          w3 = set_partition fromType (sortByIndex (options w2) (partition_of fromType w2)) w2;
          w4 = (if \<not> preserveSelectionOrder w3 \<or> toType = Available
                then set_partition toType (sortByIndex (options w3) (partition_of toType w3)) w3
                else w3)
      in dispatchChange (syncToOriginal (render_earlier w4)))"

definition moveAll_earlier :: "pane \<Rightarrow> pane \<Rightarrow> widget \<Rightarrow> widget" where
  "moveAll_earlier fromType toType w =
     (let keys = partition_of fromType w
      in if length keys > 0 then transfer_earlier keys fromType toType w else w)"

section \<open>Derived notions\<close>

text \<open>
  The test \<open>_renderPane\<close> applies to the label of an item, given the value \<open>query\<close> of
  the pane's filter input: the value is trimmed and lower-cased, then handed to
  \<open>_passesFilter\<close>.
\<close>

definition matches :: "string \<Rightarrow> string \<Rightarrow> string \<Rightarrow> bool" where
  "matches mode label query = passesFilter mode label (filterTerm (Some query))"

text \<open>
  The two partitions together hold every key of the registry, each once.
\<close>

definition partition_complete :: "widget \<Rightarrow> bool" where
  "partition_complete w \<longleftrightarrow>
     distinct (available w @ chosen w)
     \<and> set (available w @ chosen w) = fst ` set (options w)"

text \<open>
  What the panes show, as the transfer logic reads it: the \<open>dataset.key\<close> of every
  option of a pane. The widget is consistent when the partitions are complete, no entry
  of the registry has a \<open>data-key\<close> attribute of its own among the attributes copied
  from its option, and the keys a pane shows are distinct keys of its partition.
\<close>

definition pane_keys :: "pane \<Rightarrow> widget \<Rightarrow> string option list" where
  "pane_keys p w = map (\<lambda>opt. map_of (o_dataset opt) ''key'') (select_of p w)"

definition no_key_attribute :: "dataset \<Rightarrow> bool" where
  "no_key_attribute ds \<longleftrightarrow> map_of ds ''key'' = None"

definition regs_ok :: "widget \<Rightarrow> bool" where
  "regs_ok w \<longleftrightarrow> list_all (\<lambda>(k, m). no_key_attribute (m_dataset m)) (options w)"

definition pane_ok :: "pane \<Rightarrow> widget \<Rightarrow> bool" where
  "pane_ok p w \<longleftrightarrow>
     distinct (pane_keys p w)
     \<and> list_all (\<lambda>k. k \<in> Some ` set (partition_of p w)) (pane_keys p w)"

definition consistent :: "widget \<Rightarrow> bool" where
  "consistent w \<longleftrightarrow>
     partition_complete w \<and> regs_ok w \<and> pane_ok Available w \<and> pane_ok Chosen w"

text \<open>
  The options \<open>_renderPane\<close> builds for a pane: one for every key of the partition
  with an entry that passes the filter, selected when the pane had a selected option
  with that key.
\<close>

definition renderFragment :: "pane \<Rightarrow> widget \<Rightarrow> html_option list" where
  "renderFragment p w =
     concat (map (\<lambda>key.
        case map_of (options w) key of
          None \<Rightarrow> []
        | Some m \<Rightarrow>
            if filterTerm (filter_of p w) \<noteq> []
               \<and> \<not> passesFilter (filterMatchMode w) (m_label m) (filterTerm (filter_of p w))
            then []
            else [renderOption (set (getSelectedKeys (select_of p w))) key m])
      (partition_of p w))"

text \<open>The keys of a partition that \<open>_renderPane\<close> shows: those with an entry that passes the filter.\<close>

definition shown :: "widget \<Rightarrow> pane \<Rightarrow> string \<Rightarrow> bool" where
  "shown w p key =
     (case map_of (options w) key of
        None \<Rightarrow> False
      | Some m \<Rightarrow> \<not> (filterTerm (filter_of p w) \<noteq> []
                    \<and> \<not> passesFilter (filterMatchMode w) (m_label m) (filterTerm (filter_of p w))))"

section \<open>Example widgets\<close>

text \<open>
  A \<open>select\<close> with five options, the second disabled and the third selected, and the
  widgets built from it with the default configuration and with
  \<open>preserveSelectionOrder\<close> set.
\<close>

definition demo_item :: "string \<Rightarrow> bool \<Rightarrow> bool \<Rightarrow> html_option" where
  "demo_item label dis sel =
     \<lparr>o_value = label, o_text = label, o_disabled = dis, o_selected = sel,
      o_title = [], o_dataset = []\<rparr>"

definition demo_select :: "html_option list" where
  "demo_select =
     [demo_item ''Apple'' False False, demo_item ''Banana'' True False,
      demo_item ''Cherry'' False True, demo_item ''Date'' False False,
      demo_item ''Elder'' False False]"

definition demo :: widget where
  "demo = init (fresh demo_select True ''contains'' False)"

definition demo_pso :: widget where
  "demo_pso = init (fresh demo_select True ''contains'' True)"


text \<open>And after every option that can be moved has been moved to the chosen pane.\<close>

definition demo_all_chosen :: widget where
  "demo_all_chosen = handle (Click AddAll) demo"

text \<open>
  A \<open>select\<close> whose first option carries the attribute \<open>data-key="fsm-1"\<close> and whose
  second option is selected, the widget built from it, and that widget after the user
  has selected the only option of the available pane and clicked "add selected".
\<close>

definition clash_select :: "html_option list" where
  "clash_select =
     [\<lparr>o_value = ''a'', o_text = ''Apple'', o_disabled = False, o_selected = False,
       o_title = [], o_dataset = [(''key'', ''fsm-1'')]\<rparr>,
      \<lparr>o_value = ''b'', o_text = ''Banana'', o_disabled = False, o_selected = True,
       o_title = [], o_dataset = []\<rparr>]"

definition default_config :: config where
  "default_config =
     \<lparr>cfg_showFilter = None, cfg_filterMatchMode = None, cfg_preserveSelectionOrder = None\<rparr>"

definition clash :: widget where
  "clash = init (fresh clash_select True ''contains'' False)"

definition clash_moved :: widget where
  "clash_moved = run [Change Available [0], Click AddSelected] clash"


section \<open>The filter evaluator\<close>

lemma includes_str_sublist: "includes_str h n = sublist n h"
  by (induction h) (auto simp: sublist_Cons_right)

lemma isWhiteSpace_lowerChar [simp]: "isWhiteSpace (lowerChar c) = isWhiteSpace c"
  by (auto simp: lowerChar_def isWhiteSpace_def Let_def)

lemma dropWhile_ws_toLowerCase:
  "dropWhile isWhiteSpace (toLowerCase s) = toLowerCase (dropWhile isWhiteSpace s)"
  by (induction s) (simp_all add: toLowerCase_def)

lemma trim_toLowerCase: "trim (toLowerCase s) = toLowerCase (trim s)"
proof -
  have "rev (toLowerCase s) = toLowerCase (rev s)" for s
    by (simp add: toLowerCase_def rev_map)
  then show ?thesis
    by (simp add: trim_def dropWhile_ws_toLowerCase)
qed

lemma split_ws_Nil: "split_ws [] = [[]]"
  by (simp add: split_ws.simps)

text \<open>
  C5. The filter, on strings of code points below 256: the query is trimmed and
  lower-cased; a query that is empty after
  trimming matches every label; in the mode \<open>startsWith\<close> the whole query must be a prefix
  of the lower-cased label; in any other mode (\<open>contains\<close>) every non-empty piece of the
  query between runs of white space must occur in the lower-cased label as a contiguous
  substring. The result depends on the label and the query only up to case. The label
  \<open>Green Apple\<close> matches the query \<open>app gr\<close> in the mode \<open>contains\<close> and does not match
  the query \<open>apple \<close> in the mode \<open>startsWith\<close>.
\<close>

theorem filter_semantics:
  "(trim query = [] \<longrightarrow> matches mode label query)
   \<and> (mode = ''startsWith'' \<longrightarrow>
        matches mode label query = prefix (toLowerCase (trim query)) (toLowerCase label))
   \<and> (mode \<noteq> ''startsWith'' \<longrightarrow>
        matches mode label query =
          (\<forall>token \<in> set (split_ws (toLowerCase (trim query))).
             token \<noteq> [] \<longrightarrow> sublist token (toLowerCase label)))
   \<and> (toLowerCase label' = toLowerCase label \<and> toLowerCase query' = toLowerCase query \<longrightarrow>
        matches mode label' query' = matches mode label query)
   \<and> matches ''contains'' ''Green Apple'' ''app gr''
   \<and> \<not> matches ''startsWith'' ''Green Apple'' ''apple ''"
proof -
  let ?t = "toLowerCase (trim query)"
  have empty: "trim query = [] \<longrightarrow> matches mode label query"
    by (simp add: matches_def passesFilter_def filterTerm_def toLowerCase_def)
  have sw: "mode = ''startsWith'' \<longrightarrow> matches mode label query = prefix ?t (toLowerCase label)"
    by (simp add: matches_def passesFilter_def filterTerm_def)
  have ct: "mode \<noteq> ''startsWith'' \<longrightarrow> matches mode label query =
          (\<forall>token \<in> set (split_ws ?t). token \<noteq> [] \<longrightarrow> sublist token (toLowerCase label))"
    by (auto simp: matches_def passesFilter_def filterTerm_def list_all_iff
        includes_str_sublist split_ws_Nil)
  have ci: "toLowerCase label' = toLowerCase label \<and> toLowerCase query' = toLowerCase query \<longrightarrow>
        matches mode label' query' = matches mode label query"
  proof
    assume h: "toLowerCase label' = toLowerCase label \<and> toLowerCase query' = toLowerCase query"
    then have "toLowerCase (trim query') = toLowerCase (trim query)"
      by (metis trim_toLowerCase)
    with h show "matches mode label' query' = matches mode label query"
      by (simp add: matches_def passesFilter_def filterTerm_def)
  qed
  have e1: "matches ''contains'' ''Green Apple'' ''app gr''"
    by code_simp
  have e2: "\<not> matches ''startsWith'' ''Green Apple'' ''apple ''"
    by code_simp
  from empty sw ct ci e1 e2 show ?thesis by blast
qed

theorem filter_semantics_witness:
  "matches ''startsWith'' [CHR 0xC4, CHR ''p'', CHR ''f'', CHR ''e'', CHR ''l'']
     [CHR 0xA0, CHR 0xE4, CHR ''P'', CHR 0xA0]
   \<and> matches ''contains'' ''Green Apple'' ''  ''
   \<and> matches ''startsWith'' ''Green Apple'' '' GREEN a''
   \<and> \<not> matches ''contains'' ''Green Apple'' ''app  grey''
   \<and> matches ''contains'' ''GREEN APPLE'' ''App Gr''"
proof -
  have a: "trim ''  '' = []" by code_simp
  have b: "prefix (toLowerCase (trim '' GREEN a'')) (toLowerCase ''Green Apple'')" by code_simp
  have c: "\<not> (\<forall>token \<in> set (split_ws (toLowerCase (trim ''app  grey''))).
             token \<noteq> [] \<longrightarrow> sublist token (toLowerCase ''Green Apple''))"
    by code_simp
  have d: "toLowerCase ''GREEN APPLE'' = toLowerCase ''Green Apple''
           \<and> toLowerCase ''App Gr'' = toLowerCase ''app gr''"
    by code_simp
  have n: "''contains'' \<noteq> ''startsWith''" by simp
  have l: "prefix (toLowerCase (trim [CHR 0xA0, CHR 0xE4, CHR ''P'', CHR 0xA0]))
             (toLowerCase [CHR 0xC4, CHR ''p'', CHR ''f'', CHR ''e'', CHR ''l''])"
    by code_simp
  note s0 = filter_semantics[of "[CHR 0xA0, CHR 0xE4, CHR ''P'', CHR 0xA0]" "''startsWith''"
      "[CHR 0xC4, CHR ''p'', CHR ''f'', CHR ''e'', CHR ''l'']"]
  have 0: "matches ''startsWith'' [CHR 0xC4, CHR ''p'', CHR ''f'', CHR ''e'', CHR ''l'']
     [CHR 0xA0, CHR 0xE4, CHR ''P'', CHR 0xA0]"
    using mp[OF conjunct1[OF conjunct2[OF s0]] refl] l by (rule iffD2)
  note s1 = filter_semantics[of "''  ''" "''contains''" "''Green Apple''"]
  note s2 = filter_semantics[of "'' GREEN a''" "''startsWith''" "''Green Apple''"]
  note s3 = filter_semantics[of "''app  grey''" "''contains''" "''Green Apple''"]
  note s4 = filter_semantics[of "''app gr''" "''contains''" "''Green Apple''"
      "''GREEN APPLE''" "''App Gr''"]
  have 1: "matches ''contains'' ''Green Apple'' ''  ''"
    using conjunct1[OF s1] a by (rule mp)
  have 2: "matches ''startsWith'' ''Green Apple'' '' GREEN a''"
    using mp[OF conjunct1[OF conjunct2[OF s2]] refl] b by (rule iffD2)
  have 3: "\<not> matches ''contains'' ''Green Apple'' ''app  grey''"
    using c unfolding mp[OF conjunct1[OF conjunct2[OF conjunct2[OF s3]]] n] .
  have "matches ''contains'' ''GREEN APPLE'' ''App Gr'' = matches ''contains'' ''Green Apple'' ''app gr''"
    using conjunct1[OF conjunct2[OF conjunct2[OF conjunct2[OF s4]]]] d by (rule mp)
  then have 4: "matches ''contains'' ''GREEN APPLE'' ''App Gr''"
    using conjunct1[OF conjunct2[OF conjunct2[OF conjunct2[OF conjunct2[OF s4]]]]] by (rule iffD2)
  from 0 1 2 3 4 show ?thesis by (intro conjI)
qed

section \<open>What each operation leaves alone\<close>

lemma setButtonState_fields [simp]:
  "options (setButtonState a d w) = options w"
  "available (setButtonState a d w) = available w"
  "chosen (setButtonState a d w) = chosen w"
  "preserveSelectionOrder (setButtonState a d w) = preserveSelectionOrder w"
  "effects (setButtonState a d w) = effects w"
  "selectElement (setButtonState a d w) = selectElement w"
  "availableSelect (setButtonState a d w) = availableSelect w"
  "chosenSelect (setButtonState a d w) = chosenSelect w"
  "availableFilter (setButtonState a d w) = availableFilter w"
  "chosenFilter (setButtonState a d w) = chosenFilter w"
  "filterMatchMode (setButtonState a d w) = filterMatchMode w"
  by (simp_all add: setButtonState_def)

lemma updateButtons_fields [simp]:
  "options (updateButtons w) = options w"
  "available (updateButtons w) = available w"
  "chosen (updateButtons w) = chosen w"
  "preserveSelectionOrder (updateButtons w) = preserveSelectionOrder w"
  "effects (updateButtons w) = effects w"
  "selectElement (updateButtons w) = selectElement w"
  "availableSelect (updateButtons w) = availableSelect w"
  "chosenSelect (updateButtons w) = chosenSelect w"
  "availableFilter (updateButtons w) = availableFilter w"
  "chosenFilter (updateButtons w) = chosenFilter w"
  "filterMatchMode (updateButtons w) = filterMatchMode w"
  by (simp_all add: updateButtons_def Let_def)

lemma renderPane_fields [simp]:
  "options (renderPane p w) = options w"
  "available (renderPane p w) = available w"
  "chosen (renderPane p w) = chosen w"
  "preserveSelectionOrder (renderPane p w) = preserveSelectionOrder w"
  "selectElement (renderPane p w) = selectElement w"
  "availableFilter (renderPane p w) = availableFilter w"
  "chosenFilter (renderPane p w) = chosenFilter w"
  "filterMatchMode (renderPane p w) = filterMatchMode w"
  "effects (renderPane p w) = effects w @ [RenderPane p]"
  by (cases p; simp add: renderPane_def Let_def)+

lemma render_fields [simp]:
  "options (render w) = options w"
  "available (render w) = available w"
  "chosen (render w) = chosen w"
  "preserveSelectionOrder (render w) = preserveSelectionOrder w"
  "selectElement (render w) = selectElement w"
  "availableFilter (render w) = availableFilter w"
  "chosenFilter (render w) = chosenFilter w"
  "filterMatchMode (render w) = filterMatchMode w"
  "effects (render w) = effects w @ [RenderPane Available, RenderPane Chosen]"
  by (simp_all add: render_def)

lemma syncToOriginal_fields [simp]:
  "options (syncToOriginal w) = options w"
  "available (syncToOriginal w) = available w"
  "chosen (syncToOriginal w) = chosen w"
  "preserveSelectionOrder (syncToOriginal w) = preserveSelectionOrder w"
  "availableSelect (syncToOriginal w) = availableSelect w"
  "chosenSelect (syncToOriginal w) = chosenSelect w"
  "availableFilter (syncToOriginal w) = availableFilter w"
  "chosenFilter (syncToOriginal w) = chosenFilter w"
  "filterMatchMode (syncToOriginal w) = filterMatchMode w"
  "effects (syncToOriginal w) = effects w @ [SyncToOriginal]"
  by (simp_all add: syncToOriginal_def Let_def)

lemma dispatchChange_fields [simp]:
  "options (dispatchChange w) = options w"
  "available (dispatchChange w) = available w"
  "chosen (dispatchChange w) = chosen w"
  "preserveSelectionOrder (dispatchChange w) = preserveSelectionOrder w"
  "selectElement (dispatchChange w) = selectElement w"
  "availableSelect (dispatchChange w) = availableSelect w"
  "chosenSelect (dispatchChange w) = chosenSelect w"
  "availableFilter (dispatchChange w) = availableFilter w"
  "chosenFilter (dispatchChange w) = chosenFilter w"
  "filterMatchMode (dispatchChange w) = filterMatchMode w"
  "effects (dispatchChange w) = effects w @ [DispatchChange]"
  by (simp_all add: dispatchChange_def)

lemma set_partition_fields [simp]:
  "options (set_partition p ks w) = options w"
  "preserveSelectionOrder (set_partition p ks w) = preserveSelectionOrder w"
  "effects (set_partition p ks w) = effects w"
  "selectElement (set_partition p ks w) = selectElement w"
  "availableSelect (set_partition p ks w) = availableSelect w"
  "chosenSelect (set_partition p ks w) = chosenSelect w"
  "availableFilter (set_partition p ks w) = availableFilter w"
  "chosenFilter (set_partition p ks w) = chosenFilter w"
  "filterMatchMode (set_partition p ks w) = filterMatchMode w"
  by (cases p; simp)+

lemma partition_of_set_partition [simp]:
  "partition_of p (set_partition q ks w) = (if p = q then ks else partition_of p w)"
  by (cases p; cases q; simp)

lemma partition_of_frame [simp]:
  "partition_of p (updateButtons w) = partition_of p w"
  "partition_of p (renderPane q w) = partition_of p w"
  "partition_of p (render w) = partition_of p w"
  "partition_of p (syncToOriginal w) = partition_of p w"
  "partition_of p (dispatchChange w) = partition_of p w"
  by (cases p; simp)+

lemma transfer_options [simp]: "options (transfer keys f t w) = options w"
  by (simp add: transfer_def Let_def)

lemma transfer_preserve [simp]:
  "preserveSelectionOrder (transfer keys f t w) = preserveSelectionOrder w"
  by (simp add: transfer_def Let_def)

lemma transfer_from:
  "f \<noteq> t \<Longrightarrow> partition_of f (transfer keys f t w) =
     sortByIndex (options w) (filter (\<lambda>key. key \<notin> set keys) (partition_of f w))"
  by (simp add: transfer_def Let_def)

lemma transfer_to:
  "f \<noteq> t \<Longrightarrow> partition_of t (transfer keys f t w) =
     (if \<not> preserveSelectionOrder w \<or> t = Available
      then sortByIndex (options w) (partition_of t w @ keys)
      else partition_of t w @ keys)"
  by (simp add: transfer_def Let_def)


lemma transfer_effects:
  "effects (transfer keys f t w) =
     effects w @ [SyncToOriginal, RenderPane Available, RenderPane Chosen, DispatchChange]"
  by (simp add: transfer_def Let_def)

lemma sorted_sortByIndex [simp]: "sorted (map (indexOf opts) (sortByIndex opts keys))"
  by (simp add: sortByIndex_def)

lemma set_sortByIndex [simp]: "set (sortByIndex opts keys) = set keys"
  by (simp add: sortByIndex_def)

lemma length_sortByIndex [simp]: "length (sortByIndex opts keys) = length keys"
  by (simp add: sortByIndex_def)

lemma distinct_sortByIndex [simp]: "distinct (sortByIndex opts keys) = distinct keys"
  by (simp add: sortByIndex_def)

lemma sortByIndex_sorted: "sorted (map (indexOf opts) keys) \<Longrightarrow> sortByIndex opts keys = keys"
  by (simp add: sortByIndex_def sort_key_id_if_sorted)

section \<open>The example widgets, evaluated\<close>

lemma demo_available: "available demo = [''fsm-0'', ''fsm-1'', ''fsm-3'', ''fsm-4'']"
  by code_simp

lemma demo_chosen: "chosen demo = [''fsm-2'']"
  by code_simp



lemma demo_flag: "\<not> preserveSelectionOrder demo"
  by code_simp

section \<open>Transfers\<close>

lemma demo_effects: "effects demo = [RenderPane Available, RenderPane Chosen]"
  by code_simp



lemma length_filter_notin:
  assumes "distinct xs" "distinct ks" "set ks \<subseteq> set xs"
  shows "length (filter (\<lambda>k. k \<notin> set ks) xs) = length xs - length ks"
proof -
  have "set (filter (\<lambda>k. k \<notin> set ks) xs) = set xs - set ks" by auto
  moreover have "distinct (filter (\<lambda>k. k \<notin> set ks) xs)" using assms(1) by simp
  ultimately have "length (filter (\<lambda>k. k \<notin> set ks) xs) = card (set xs - set ks)"
    by (metis distinct_card)
  also have "\<dots> = card (set xs) - card (set ks)"
    using assms(3) by (simp add: card_Diff_subset)
  finally show ?thesis using assms(1,2) by (simp add: distinct_card)
qed

text \<open>
  The claim about the sizes of the partitions after a transfer fails as it is put, in
  two ways. With \<open>preserveSelectionOrder\<close> set, the chosen partition of the example
  becomes \<open>fsm-2, fsm-4, fsm-0\<close> when \<open>fsm-4\<close> and \<open>fsm-0\<close> are added in that order;
  taking \<open>fsm-2\<close> out leaves \<open>fsm-0, fsm-4\<close>, not \<open>fsm-4, fsm-0\<close>, since
  \<open>_transfer\<close> sorts the partition the keys are taken from by index. And in the widget
  \<open>clash_moved\<close>, whose chosen partition holds \<open>fsm-1\<close> twice, taking the one key
  \<open>fsm-1\<close> out leaves no member, not one.
\<close>

theorem transfer_cardinality_counterexample:
  "chosen (transfer [''fsm-4'', ''fsm-0''] Available Chosen demo_pso)
     = [''fsm-2'', ''fsm-4'', ''fsm-0'']
   \<and> chosen (transfer [''fsm-2''] Chosen Available
         (transfer [''fsm-4'', ''fsm-0''] Available Chosen demo_pso))
     = [''fsm-0'', ''fsm-4'']
   \<and> chosen clash_moved = [''fsm-1'', ''fsm-1'']
   \<and> chosen (transfer [''fsm-1''] Chosen Available clash_moved) = []
   \<and> available (transfer [''fsm-1''] Chosen Available clash_moved) = [''fsm-0'', ''fsm-1'']"
  by code_simp

text \<open>
  C6. A transfer of duplicate-free keys, all in the partition \<open>A\<close> they are taken from,
  to the other partition \<open>B\<close>, when \<open>A\<close> holds no key twice: \<open>A\<close> loses as many
  members as there are keys, \<open>B\<close> gains as many, no key stays in \<open>A\<close> and every key is
  in \<open>B\<close>. \<open>A\<close> afterwards holds the members of \<open>A\<close> that are not among the keys,
  compared as strings, and no others, sorted by index; their order is the one they had
  when \<open>A\<close> was sorted by index before.
\<close>

theorem transfer_cardinality:
  assumes "fromType \<noteq> toType"
    and "distinct keys"
    and "set keys \<subseteq> set (partition_of fromType w)"
    and "distinct (partition_of fromType w)"
  shows "length (partition_of fromType (transfer keys fromType toType w)) =
           length (partition_of fromType w) - length keys
       \<and> length (partition_of toType (transfer keys fromType toType w)) =
           length (partition_of toType w) + length keys
       \<and> set (partition_of fromType (transfer keys fromType toType w)) \<inter> set keys = {}
       \<and> set keys \<subseteq> set (partition_of toType (transfer keys fromType toType w))
       \<and> partition_of fromType (transfer keys fromType toType w) =
           sortByIndex (options w) (filter (\<lambda>key. key \<notin> set keys) (partition_of fromType w))
       \<and> set (partition_of fromType (transfer keys fromType toType w)) =
           set (partition_of fromType w) - set keys
       \<and> sorted (map (indexOf (options w)) (partition_of fromType (transfer keys fromType toType w)))
       \<and> (sorted (map (indexOf (options w)) (partition_of fromType w)) \<longrightarrow>
            partition_of fromType (transfer keys fromType toType w) =
              filter (\<lambda>key. key \<notin> set keys) (partition_of fromType w))"
proof -
  let ?A = "partition_of fromType w"
  let ?A' = "partition_of fromType (transfer keys fromType toType w)"
  let ?B' = "partition_of toType (transfer keys fromType toType w)"
  let ?R = "filter (\<lambda>key. key \<notin> set keys) ?A"
  have A': "?A' = sortByIndex (options w) ?R"
    using assms(1) by (rule transfer_from)
  have 1: "length ?A' = length ?A - length keys"
    using assms by (simp add: A' length_filter_notin)
  have 2: "length ?B' = length (partition_of toType w) + length keys"
    using assms(1) by (simp add: transfer_to)
  have 3: "set ?A' \<inter> set keys = {}"
    by (auto simp: A')
  have 4: "set keys \<subseteq> set ?B'"
    using assms(1) by (simp add: transfer_to)
  have 5: "set ?A' = set ?A - set keys \<and> sorted (map (indexOf (options w)) ?A')"
    by (auto simp: A')
  have 6: "sorted (map (indexOf (options w)) ?A) \<longrightarrow> ?A' = ?R"
    by (simp add: A' sortByIndex_sorted sorted_filter)
  from A' 1 2 3 4 5 6 show ?thesis by blast
qed

theorem transfer_cardinality_witness:
  "Available \<noteq> Chosen
   \<and> distinct [''fsm-0'', ''fsm-3'']
   \<and> set [''fsm-0'', ''fsm-3''] \<subseteq> set (partition_of Available demo)
   \<and> distinct (partition_of Available demo)
   \<and> length (partition_of Available (transfer [''fsm-0'', ''fsm-3''] Available Chosen demo)) = 2
   \<and> length (partition_of Chosen (transfer [''fsm-0'', ''fsm-3''] Available Chosen demo)) = 3
   \<and> partition_of Available (transfer [''fsm-0'', ''fsm-3''] Available Chosen demo)
       = [''fsm-1'', ''fsm-4'']"
proof -
  have h1: "Available \<noteq> Chosen" by simp
  have h2: "distinct [''fsm-0'', ''fsm-3'']" by simp
  have h3: "set [''fsm-0'', ''fsm-3''] \<subseteq> set (partition_of Available demo)"
    by (simp add: demo_available)
  have h4: "distinct (partition_of Available demo)"
    by (simp add: demo_available)
  have s: "sorted (map (indexOf (options demo)) (partition_of Available demo))"
    by code_simp
  note c = transfer_cardinality[OF h1 h2 h3 h4]
  have 1: "length (partition_of Available (transfer [''fsm-0'', ''fsm-3''] Available Chosen demo)) = 2"
    using conjunct1[OF c] by (simp add: demo_available)
  have 2: "length (partition_of Chosen (transfer [''fsm-0'', ''fsm-3''] Available Chosen demo)) = 3"
    using conjunct1[OF conjunct2[OF c]] by (simp add: demo_chosen)
  have "partition_of Available (transfer [''fsm-0'', ''fsm-3''] Available Chosen demo)
       = filter (\<lambda>key. key \<notin> set [''fsm-0'', ''fsm-3'']) (partition_of Available demo)"
    using c s by blast
  then have 3: "partition_of Available (transfer [''fsm-0'', ''fsm-3''] Available Chosen demo)
       = [''fsm-1'', ''fsm-4'']"
    by (simp add: demo_available)
  from h1 h2 h3 h4 1 2 3 show ?thesis by blast
qed

section \<open>Moving all items\<close>

lemma eligible_iff:
  "eligible opts key \<longleftrightarrow> (\<exists>m. map_of opts key = Some m \<and> \<not> m_disabled m)"
  by (simp add: eligible_def split: option.split)

lemma filter_notin_filter:
  "filter (\<lambda>key. key \<notin> set (filter P xs)) xs = filter (\<lambda>key. \<not> P key) xs"
  by (rule filter_cong) auto

lemma filter_notin_filter' [simp]:
  "filter (\<lambda>key. key \<in> set xs \<longrightarrow> \<not> P key) xs = filter (\<lambda>key. \<not> P key) xs"
  by (rule filter_cong) auto

lemma moveAll_unfold:
  "moveAll f t w =
     (if \<exists>key \<in> set (partition_of f w). eligible (options w) key
      then transfer (filter (eligible (options w)) (partition_of f w)) f t w else w)"
  by (auto simp: moveAll_def Let_def filter_empty_conv)

text \<open>
  C4. \<open>moveAll(from, to)\<close> between the two partitions moves the keys of \<open>from\<close> that
  have an entry that is not disabled, and no others: the other keys of \<open>from\<close> stay
  there, and \<open>to\<close> receives the moved keys after its own. When \<open>from\<close> has no such key
  the widget is left as it was, so nothing is rendered, written back or dispatched;
  otherwise the effects are those of one transfer. The filter inputs and the contents of
  the panes have no influence on the resulting partitions.
\<close>

theorem moveAll_semantics:
  assumes "fromType \<noteq> toType"
  shows "((\<forall>key \<in> set (partition_of fromType w). \<not> eligible (options w) key) \<longrightarrow>
            moveAll fromType toType w = w)
       \<and> ((\<exists>key \<in> set (partition_of fromType w). eligible (options w) key) \<longrightarrow>
            partition_of fromType (moveAll fromType toType w) =
              sortByIndex (options w)
                (filter (\<lambda>key. \<not> eligible (options w) key) (partition_of fromType w))
          \<and> partition_of toType (moveAll fromType toType w) =
              (if \<not> preserveSelectionOrder w \<or> toType = Available
               then sortByIndex (options w)
                      (partition_of toType w @ filter (eligible (options w)) (partition_of fromType w))
               else partition_of toType w @ filter (eligible (options w)) (partition_of fromType w))
          \<and> effects (moveAll fromType toType w) =
              effects w @ [SyncToOriginal, RenderPane Available, RenderPane Chosen, DispatchChange])
       \<and> set (partition_of fromType (moveAll fromType toType w)) =
            {key \<in> set (partition_of fromType w). \<not> eligible (options w) key}
       \<and> set (partition_of toType (moveAll fromType toType w)) =
            set (partition_of toType w) \<union> {key \<in> set (partition_of fromType w). eligible (options w) key}
       \<and> (\<forall>key. eligible (options w) key \<longleftrightarrow>
            (\<exists>m. map_of (options w) key = Some m \<and> \<not> m_disabled m))
       \<and> (\<forall>p. partition_of p (moveAll fromType toType
              (w\<lparr>availableFilter := fa, chosenFilter := fc, availableSelect := sa, chosenSelect := sc\<rparr>))
            = partition_of p (moveAll fromType toType w))"
proof -
  let ?E = "eligible (options w)"
  let ?A = "partition_of fromType w"
  let ?w' = "moveAll fromType toType w"
  have noop: "(\<forall>key \<in> set ?A. \<not> ?E key) \<longrightarrow> ?w' = w"
    by (simp add: moveAll_unfold)
  have move: "(\<exists>key \<in> set ?A. ?E key) \<longrightarrow>
       partition_of fromType ?w' = sortByIndex (options w) (filter (\<lambda>key. \<not> ?E key) ?A)
     \<and> partition_of toType ?w' =
         (if \<not> preserveSelectionOrder w \<or> toType = Available
          then sortByIndex (options w) (partition_of toType w @ filter ?E ?A)
          else partition_of toType w @ filter ?E ?A)
     \<and> effects ?w' =
         effects w @ [SyncToOriginal, RenderPane Available, RenderPane Chosen, DispatchChange]"
    using assms
    by (simp add: moveAll_unfold transfer_from transfer_to transfer_effects filter_notin_filter)
  have from_set: "set (partition_of fromType ?w') = {key \<in> set ?A. \<not> ?E key}"
    using assms by (auto simp: moveAll_unfold transfer_from filter_notin_filter)
  have to_set: "set (partition_of toType ?w') = set (partition_of toType w) \<union> {key \<in> set ?A. ?E key}"
    using assms by (auto simp: moveAll_unfold transfer_to)
  have elig: "\<forall>key. ?E key \<longleftrightarrow> (\<exists>m. map_of (options w) key = Some m \<and> \<not> m_disabled m)"
    by (simp add: eligible_iff)
  have indep: "\<forall>p. partition_of p (moveAll fromType toType
              (w\<lparr>availableFilter := fa, chosenFilter := fc, availableSelect := sa, chosenSelect := sc\<rparr>))
            = partition_of p ?w'"
  proof
    fix p
    let ?v = "w\<lparr>availableFilter := fa, chosenFilter := fc, availableSelect := sa, chosenSelect := sc\<rparr>"
    have po: "partition_of q ?v = partition_of q w" for q
      by (cases q) simp_all
    have "options ?v = options w" "preserveSelectionOrder ?v = preserveSelectionOrder w"
      by simp_all
    then show "partition_of p (moveAll fromType toType ?v) = partition_of p ?w'"
      using assms
      by (cases "p = fromType"; cases "p = toType")
         (auto simp: moveAll_unfold po transfer_from transfer_to, (metis pane.exhaust)+)
  qed
  from noop move from_set to_set elig indep show ?thesis by blast
qed

lemma demo_moveAll_from:
  "sortByIndex (options demo)
     (filter (\<lambda>key. \<not> eligible (options demo) key) (partition_of Available demo)) = [''fsm-1'']"
  by code_simp

lemma demo_moveAll_to:
  "sortByIndex (options demo)
     (partition_of Chosen demo @ filter (eligible (options demo)) (partition_of Available demo))
   = [''fsm-0'', ''fsm-2'', ''fsm-3'', ''fsm-4'']"
  by code_simp

lemma demo_moveAll_again:
  "\<forall>key \<in> set (partition_of Available (transfer [''fsm-0'', ''fsm-3'', ''fsm-4''] Available Chosen demo)).
     \<not> eligible (options (transfer [''fsm-0'', ''fsm-3'', ''fsm-4''] Available Chosen demo)) key"
  by code_simp

theorem moveAll_semantics_witness:
  "Available \<noteq> Chosen
   \<and> (\<exists>key \<in> set (partition_of Available demo). eligible (options demo) key)
   \<and> partition_of Available (moveAll Available Chosen demo) = [''fsm-1'']
   \<and> partition_of Chosen (moveAll Available Chosen demo) = [''fsm-0'', ''fsm-2'', ''fsm-3'', ''fsm-4'']
   \<and> moveAll Available Chosen (transfer [''fsm-0'', ''fsm-3'', ''fsm-4''] Available Chosen demo)
       = transfer [''fsm-0'', ''fsm-3'', ''fsm-4''] Available Chosen demo"
proof -
  have ne: "Available \<noteq> Chosen" by simp
  have ex: "\<exists>key \<in> set (partition_of Available demo). eligible (options demo) key"
    by code_simp
  note m = moveAll_semantics[OF ne, of demo]
  note m2 = moveAll_semantics[OF ne, of "transfer [''fsm-0'', ''fsm-3'', ''fsm-4''] Available Chosen demo"]
  have mv: "partition_of Available (moveAll Available Chosen demo) =
              sortByIndex (options demo)
                (filter (\<lambda>key. \<not> eligible (options demo) key) (partition_of Available demo))
          \<and> partition_of Chosen (moveAll Available Chosen demo) =
              (if \<not> preserveSelectionOrder demo \<or> Chosen = Available
               then sortByIndex (options demo)
                      (partition_of Chosen demo @ filter (eligible (options demo)) (partition_of Available demo))
               else partition_of Chosen demo @ filter (eligible (options demo)) (partition_of Available demo))"
    using mp[OF conjunct1[OF conjunct2[OF m]] ex] by blast
  have 1: "partition_of Available (moveAll Available Chosen demo) = [''fsm-1'']"
    using conjunct1[OF mv] by (simp only: demo_moveAll_from)
  have 2: "partition_of Chosen (moveAll Available Chosen demo) = [''fsm-0'', ''fsm-2'', ''fsm-3'', ''fsm-4'']"
    using conjunct2[OF mv] demo_flag by (simp only: demo_moveAll_to if_True simp_thms)
  have 3: "moveAll Available Chosen (transfer [''fsm-0'', ''fsm-3'', ''fsm-4''] Available Chosen demo)
       = transfer [''fsm-0'', ''fsm-3'', ''fsm-4''] Available Chosen demo"
    using conjunct1[OF m2] demo_moveAll_again by (rule mp)
  from ne ex 1 2 3 show ?thesis by (intro conjI)
qed

section \<open>Moving the selected items\<close>

lemma set_map_filter: "set (List.map_filter g xs) = {y. \<exists>x \<in> set xs. g x = Some y}"
  by (induction xs) (auto simp: List.map_filter_simps split: option.splits)

lemma moveSelected_keys:
  "set (List.map_filter
          (\<lambda>k. case k of None \<Rightarrow> None
               | Some key \<Rightarrow> if eligible opts key then Some key else None)
          (getSelectedKeys select))
   = {key. \<exists>opt \<in> set select. o_selected opt \<and> map_of (o_dataset opt) ''key'' = Some key
            \<and> eligible opts key}"
  by (auto simp: set_map_filter getSelectedKeys_def selectedOptions_def split: option.splits if_splits)










section \<open>The buttons\<close>

lemma notDisabled_registered:
  assumes "key \<in> fst ` set opts"
  shows "notDisabled opts key = (\<exists>m. map_of opts key = Some m \<and> \<not> m_disabled m)"
proof (cases "map_of opts key")
  case None
  then show ?thesis using assms by (simp add: map_of_eq_None_iff)
next
  case (Some m)
  then show ?thesis by (simp add: notDisabled_def)
qed

lemma updateButtons_buttons:
  "buttons (updateButtons w) AddAll = (\<not> list_ex (notDisabled (options w)) (available w))"
  "buttons (updateButtons w) RemoveAll = (\<not> list_ex (notDisabled (options w)) (chosen w))"
  "buttons (updateButtons w) AddSelected = (\<not> length (selectedOptions (availableSelect w)) > 0)"
  "buttons (updateButtons w) RemoveSelected = (\<not> length (selectedOptions (chosenSelect w)) > 0)"
  by (simp_all add: updateButtons_def setButtonState_def Let_def)

text \<open>
  C8. After \<open>_updateButtons\<close>, in a widget whose partitions hold keys of the registry
  only: the button "add all" is enabled exactly when some key of the available partition
  has an entry that is not disabled, and the button "remove all" is enabled exactly when
  some key of the chosen partition has one.
\<close>

theorem updateButtons_bulk:
  assumes "set (available w) \<union> set (chosen w) \<subseteq> fst ` set (options w)"
  shows "(\<not> buttons (updateButtons w) AddAll) =
           (\<exists>key \<in> set (available w). \<exists>m. map_of (options w) key = Some m \<and> \<not> m_disabled m)
       \<and> (\<not> buttons (updateButtons w) RemoveAll) =
           (\<exists>key \<in> set (chosen w). \<exists>m. map_of (options w) key = Some m \<and> \<not> m_disabled m)"
proof -
  have "\<forall>key \<in> set (available w) \<union> set (chosen w).
          notDisabled (options w) key = (\<exists>m. map_of (options w) key = Some m \<and> \<not> m_disabled m)"
    using assms notDisabled_registered[of _ "options w"] by blast
  then show ?thesis
    by (simp add: updateButtons_buttons list_ex_iff)
qed

lemma demo_registered:
  "set (available demo) \<union> set (chosen demo) \<subseteq> fst ` set (options demo)"
  by code_simp

lemma demo_all_chosen_registered:
  "set (available demo_all_chosen) \<union> set (chosen demo_all_chosen)
     \<subseteq> fst ` set (options demo_all_chosen)"
  by code_simp

lemma demo_has_eligible:
  "(\<exists>key \<in> set (available demo). eligible (options demo) key)
   \<and> (\<exists>key \<in> set (chosen demo). eligible (options demo) key)"
  by code_simp

lemma demo_all_chosen_eligible:
  "\<not> (\<exists>key \<in> set (available demo_all_chosen). eligible (options demo_all_chosen) key)
   \<and> available demo_all_chosen = [''fsm-1'']"
  by code_simp

theorem updateButtons_bulk_witness:
  "set (available demo) \<union> set (chosen demo) \<subseteq> fst ` set (options demo)
   \<and> \<not> buttons (updateButtons demo) AddAll
   \<and> \<not> buttons (updateButtons demo) RemoveAll
   \<and> available demo_all_chosen = [''fsm-1'']
   \<and> buttons (updateButtons demo_all_chosen) AddAll"
proof -
  note b1 = updateButtons_bulk[OF demo_registered, folded eligible_iff]
  note b2 = updateButtons_bulk[OF demo_all_chosen_registered, folded eligible_iff]
  have 1: "\<not> buttons (updateButtons demo) AddAll"
    using conjunct1[OF b1] conjunct1[OF demo_has_eligible] by (rule iffD2)
  have 2: "\<not> buttons (updateButtons demo) RemoveAll"
    using conjunct2[OF b1] conjunct2[OF demo_has_eligible] by (rule iffD2)
  have 3: "buttons (updateButtons demo_all_chosen) AddAll"
    using conjunct1[OF b2] conjunct1[OF demo_all_chosen_eligible] by blast
  from demo_registered 1 2 3 conjunct2[OF demo_all_chosen_eligible] show ?thesis
    by (intro conjI)
qed

section \<open>Sorting keys the registry does not know\<close>

lemma insort_key_append_le:
  "\<forall>b \<in> set B. f x \<le> f b \<Longrightarrow> insort_key f x (A @ B) = insort_key f x A @ B"
proof (induction A)
  case Nil
  then show ?case by (cases B) simp_all
next
  case (Cons a A)
  then show ?case by simp
qed

lemma insort_key_append_gt:
  "\<forall>a \<in> set A. f a < f x \<Longrightarrow> \<forall>b \<in> set B. f x \<le> f b \<Longrightarrow>
     insort_key f x (A @ B) = A @ x # B"
proof (induction A)
  case Nil
  then show ?case by (cases B) simp_all
next
  case (Cons a A)
  then show ?case by (auto simp: not_le)
qed

lemma sort_key_split:
  fixes f :: "'a \<Rightarrow> nat"
  assumes "\<forall>x \<in> set xs. P x \<longrightarrow> f x < c" and "\<forall>x \<in> set xs. \<not> P x \<longrightarrow> f x = c"
  shows "sort_key f xs = sort_key f (filter P xs) @ filter (\<lambda>x. \<not> P x) xs"
  using assms
proof (induction xs)
  case Nil
  then show ?case by simp
next
  case (Cons x xs)
  let ?A = "sort_key f (filter P xs)"
  let ?B = "filter (\<lambda>x. \<not> P x) xs"
  have ih: "sort_key f xs = ?A @ ?B" using Cons by simp
  have B: "\<forall>b \<in> set ?B. f b = c" using Cons.prems by simp
  have A: "\<forall>a \<in> set ?A. f a < c" using Cons.prems by simp
  show ?case
  proof (cases "P x")
    case True
    then have "f x < c" using Cons.prems by simp
    then have "\<forall>b \<in> set ?B. f x \<le> f b" using B by simp
    then show ?thesis using True ih by (simp add: insort_key_append_le)
  next
    case False
    then have "f x = c" using Cons.prems by simp
    then show ?thesis using False ih A B by (simp add: insort_key_append_gt)
  qed
qed

lemma indexOf_unknown:
  assumes "k \<notin> fst ` set opts"
  shows "indexOf opts k = MAX_SAFE_INTEGER"
proof -
  have "map_of opts k = None" using assms by (simp add: map_of_eq_None_iff)
  then show ?thesis by (simp add: indexOf_def)
qed

lemma indexOf_known:
  assumes "\<forall>(k, m) \<in> set opts. m_index m < MAX_SAFE_INTEGER" and "k \<in> fst ` set opts"
  shows "indexOf opts k < MAX_SAFE_INTEGER"
proof -
  obtain m where m: "map_of opts k = Some m"
    using assms(2) by (metis map_of_eq_None_iff not_Some_eq)
  then have "(k, m) \<in> set opts" by (rule map_of_SomeD)
  then show ?thesis using assms(1) m by (auto simp: indexOf_def)
qed

text \<open>
  C10. \<open>_sortByIndex\<close> on any list of keys, for a registry whose indices are all below
  \<open>Number.MAX_SAFE_INTEGER\<close> (they are positions in the list of options of a
  \<open>select\<close>): a key without an entry counts as \<open>Number.MAX_SAFE_INTEGER\<close>, and the
  result is the keys with an entry, sorted by index, followed by the keys without one,
  in the order they had. It has the same keys as the argument, as many times.
\<close>

theorem sortByIndex_unknown_keys:
  assumes "\<forall>(k, m) \<in> set opts. m_index m < MAX_SAFE_INTEGER"
  shows "(\<forall>k. k \<notin> fst ` set opts \<longrightarrow> indexOf opts k = MAX_SAFE_INTEGER)
       \<and> sortByIndex opts keys =
           sortByIndex opts (filter (\<lambda>k. k \<in> fst ` set opts) keys)
             @ filter (\<lambda>k. k \<notin> fst ` set opts) keys
       \<and> length (sortByIndex opts keys) = length keys
       \<and> set (sortByIndex opts keys) = set keys
       \<and> sorted (map (indexOf opts) (sortByIndex opts keys))"
proof -
  have "sort_key (indexOf opts) keys =
          sort_key (indexOf opts) (filter (\<lambda>k. k \<in> fst ` set opts) keys)
            @ filter (\<lambda>k. \<not> k \<in> fst ` set opts) keys"
  proof (rule sort_key_split[where c = MAX_SAFE_INTEGER])
    show "\<forall>k \<in> set keys. k \<in> fst ` set opts \<longrightarrow> indexOf opts k < MAX_SAFE_INTEGER"
      using indexOf_known[OF assms] by blast
    show "\<forall>k \<in> set keys. k \<notin> fst ` set opts \<longrightarrow> indexOf opts k = MAX_SAFE_INTEGER"
      using indexOf_unknown by blast
  qed
  then have split: "sortByIndex opts keys =
           sortByIndex opts (filter (\<lambda>k. k \<in> fst ` set opts) keys)
             @ filter (\<lambda>k. k \<notin> fst ` set opts) keys"
    by (simp only: sortByIndex_def)
  have unknown: "\<forall>k. k \<notin> fst ` set opts \<longrightarrow> indexOf opts k = MAX_SAFE_INTEGER"
    using indexOf_unknown by blast
  from unknown split show ?thesis
    using length_sortByIndex[of opts keys] set_sortByIndex[of opts keys]
      sorted_sortByIndex[of opts keys] by blast
qed


lemma demo_indices: "map (\<lambda>(k, m). m_index m) (options demo) = [0, 1, 2, 3, 4]"
  by code_simp

lemma demo_indices_bounded: "\<forall>(k, m) \<in> set (options demo). m_index m < MAX_SAFE_INTEGER"
proof -
  have "\<forall>i \<in> set (map (\<lambda>(k, m). m_index m) (options demo)). i < MAX_SAFE_INTEGER"
    unfolding demo_indices by (simp add: MAX_SAFE_INTEGER_def)
  then show ?thesis by auto
qed

lemma demo_known:
  "filter (\<lambda>k. k \<in> fst ` set (options demo)) [''zzz'', ''fsm-3'', ''ghost'', ''fsm-0'']
     = [''fsm-3'', ''fsm-0'']
   \<and> filter (\<lambda>k. k \<notin> fst ` set (options demo)) [''zzz'', ''fsm-3'', ''ghost'', ''fsm-0'']
     = [''zzz'', ''ghost'']
   \<and> sortByIndex (options demo) [''fsm-3'', ''fsm-0''] = [''fsm-0'', ''fsm-3'']"
  by code_simp

theorem sortByIndex_unknown_keys_witness:
  "list_all (\<lambda>(k, m). m_index m < MAX_SAFE_INTEGER) (options demo)
   \<and> sortByIndex (options demo) [''zzz'', ''fsm-3'', ''ghost'', ''fsm-0'']
       = [''fsm-0'', ''fsm-3'', ''zzz'', ''ghost'']"
proof -
  note u = sortByIndex_unknown_keys[OF demo_indices_bounded,
      of "[''zzz'', ''fsm-3'', ''ghost'', ''fsm-0'']"]
  have "sortByIndex (options demo) [''zzz'', ''fsm-3'', ''ghost'', ''fsm-0'']
       = [''fsm-0'', ''fsm-3''] @ [''zzz'', ''ghost'']"
    using conjunct1[OF conjunct2[OF u]] by (simp only: demo_known)
  then show ?thesis using demo_indices_bounded by (simp add: list_all_iff)
qed

section \<open>Keys and the initial partitions\<close>

lemma digitChar_inj:
  assumes "a < 10" "b < 10" "digitChar a = digitChar b"
  shows "a = b"
proof -
  have "(of_char (digitChar a) :: nat) = of_char (digitChar b)"
    using assms(3) by simp
  then show ?thesis using assms(1,2) by (simp add: digitChar_def)
qed

lemma decimal_not_Nil: "decimal n \<noteq> []"
  by (subst decimal.simps) simp

lemma decimal_last: "last (decimal n) = digitChar (n mod 10)"
  by (subst decimal.simps) simp

lemma decimal_butlast: "butlast (decimal n) = (if n < 10 then [] else decimal (n div 10))"
  by (subst decimal.simps) simp

lemma decimal_inj: "decimal n = decimal m \<Longrightarrow> n = m"
proof (induction n arbitrary: m rule: decimal.induct)
  case (1 n)
  have l: "n mod 10 = m mod 10"
    using 1(2) decimal_last[of n] decimal_last[of m] digitChar_inj[of "n mod 10" "m mod 10"]
    by simp
  have b: "butlast (decimal n) = butlast (decimal m)" using 1(2) by simp
  show ?case
  proof (cases "n < 10")
    case True
    then have "m < 10"
      using b decimal_butlast[of n] decimal_butlast[of m] decimal_not_Nil[of "m div 10"]
      by (auto split: if_splits)
    with True l show ?thesis by simp
  next
    case False
    then have m: "\<not> m < 10"
      using b decimal_butlast[of n] decimal_butlast[of m] decimal_not_Nil[of "n div 10"]
      by (auto split: if_splits)
    then have "decimal (n div 10) = decimal (m div 10)"
      using False b by (simp add: decimal_butlast)
    then have "n div 10 = m div 10" using 1(1)[OF False] by simp
    with l show ?thesis by (metis div_mult_mod_eq)
  qed
qed

lemma make_key_inj [simp]: "make_key i = make_key j \<longleftrightarrow> i = j"
  by (auto simp: make_key_def dest: decimal_inj)

lemma update_fresh: "k \<notin> fst ` set al \<Longrightarrow> AList.update k v al = al @ [(k, v)]"
  by (induction al) auto

lemma buildState_loop_spec:
  assumes "\<forall>j \<ge> idx. make_key j \<notin> fst ` set (options w)"
  shows "options (buildState_loop els idx w) =
           options w @ map (\<lambda>(i, opt). (make_key i, make_meta opt i)) (List.enumerate idx els)
       \<and> available (buildState_loop els idx w) =
           available w @ map (\<lambda>(i, opt). make_key i)
             (filter (\<lambda>(i, opt). \<not> o_selected opt) (List.enumerate idx els))
       \<and> chosen (buildState_loop els idx w) =
           chosen w @ map (\<lambda>(i, opt). make_key i)
             (filter (\<lambda>(i, opt). o_selected opt) (List.enumerate idx els))
       \<and> preserveSelectionOrder (buildState_loop els idx w) = preserveSelectionOrder w
       \<and> selectElement (buildState_loop els idx w) = selectElement w"
  using assms
proof (induction els arbitrary: idx w)
  case Nil
  then show ?case by simp
next
  case (Cons opt els)
  let ?w = "buildState_step opt idx w"
  have fresh: "make_key idx \<notin> fst ` set (options w)" using Cons.prems by simp
  have opts: "options ?w = options w @ [(make_key idx, make_meta opt idx)]"
    by (simp add: buildState_step_def Let_def update_fresh[OF fresh])
  have "\<forall>j \<ge> Suc idx. make_key j \<notin> fst ` set (options ?w)"
    using Cons.prems by (auto simp: opts)
  from Cons.IH[OF this] show ?case
    by (simp add: opts) (simp add: buildState_step_def Let_def)
qed


lemma registry_keys:
  "map fst (map (\<lambda>(i, opt). (make_key i, make_meta opt i)) (List.enumerate n els))
     = map make_key [n..<n + length els]"
proof -
  have "map fst (map (\<lambda>(i, opt). (make_key i, make_meta opt i)) (List.enumerate n els))
      = map make_key (map fst (List.enumerate n els))"
    by (simp add: case_prod_unfold comp_def del: map_fst_enumerate)
  then show ?thesis by (simp only: map_fst_enumerate)
qed

lemma registry_distinct:
  "distinct (map fst (map (\<lambda>(i, opt). (make_key i, make_meta opt i)) (List.enumerate n els)))"
  unfolding registry_keys by (simp add: distinct_map inj_on_def)

lemma registry_lookup:
  assumes "i < length els"
  shows "map_of (map (\<lambda>(i, opt). (make_key i, make_meta opt i)) (List.enumerate 0 els)) (make_key i)
           = Some (make_meta (els ! i) i)"
proof -
  have "(i, els ! i) \<in> set (List.enumerate 0 els)"
    using assms by (simp add: in_set_enumerate_eq)
  then have "(make_key i, make_meta (els ! i) i)
      \<in> set (map (\<lambda>(i, opt). (make_key i, make_meta opt i)) (List.enumerate 0 els))"
    by (simp add: image_iff) (rule bexI[of _ "(i, els ! i)"], simp_all)
  then show ?thesis
    using registry_distinct[of 0 els] by (simp only: map_of_eq_Some_iff)
qed

lemma registry_indexOf:
  assumes "i < length els"
  shows "indexOf (map (\<lambda>(i, opt). (make_key i, make_meta opt i)) (List.enumerate 0 els)) (make_key i) = i"
  using registry_lookup[OF assms] by (simp add: indexOf_def make_meta_def)

lemma registry_sorted:
  "sorted (map (indexOf (map (\<lambda>(i, opt). (make_key i, make_meta opt i)) (List.enumerate 0 els)))
     (map (\<lambda>(i, opt). make_key i) (filter Q (List.enumerate 0 els))))"
proof -
  let ?R = "map (\<lambda>(i, opt). (make_key i, make_meta opt i)) (List.enumerate 0 els)"
  have "map (indexOf ?R \<circ> (\<lambda>(i, opt). make_key i)) (filter Q (List.enumerate 0 els))
      = map fst (filter Q (List.enumerate 0 els))"
    by (rule map_cong[OF refl]) (auto simp: in_set_enumerate_eq registry_indexOf)
  moreover have "sorted (map fst (filter Q (List.enumerate 0 els)))"
    by (rule sorted_filter) (simp add: map_fst_enumerate)
  ultimately show ?thesis by (simp only: map_map)
qed

lemma fresh_fields [simp]:
  "options (fresh els sf mode pso) = []"
  "available (fresh els sf mode pso) = []"
  "chosen (fresh els sf mode pso) = []"
  "selectElement (fresh els sf mode pso) = els"
  "preserveSelectionOrder (fresh els sf mode pso) = pso"
  by (simp_all add: fresh_def)

lemma buildState_fresh:
  "options (buildState (fresh els sf mode pso)) =
     map (\<lambda>(i, opt). (make_key i, make_meta opt i)) (List.enumerate 0 els)
   \<and> available (buildState (fresh els sf mode pso)) =
     map (\<lambda>(i, opt). make_key i) (filter (\<lambda>(i, opt). \<not> o_selected opt) (List.enumerate 0 els))
   \<and> chosen (buildState (fresh els sf mode pso)) =
     map (\<lambda>(i, opt). make_key i) (filter (\<lambda>(i, opt). o_selected opt) (List.enumerate 0 els))"
proof -
  define w1 where "w1 = buildState_loop els 0 (fresh els sf mode pso)"
  have "\<forall>j \<ge> 0. make_key j \<notin> fst ` set (options (fresh els sf mode pso))" by simp
  note l = buildState_loop_spec[OF this, of els, folded w1_def]
  have o: "options w1 = map (\<lambda>(i, opt). (make_key i, make_meta opt i)) (List.enumerate 0 els)"
    and a: "available w1 = map (\<lambda>(i, opt). make_key i)
              (filter (\<lambda>(i, opt). \<not> o_selected opt) (List.enumerate 0 els))"
    and c: "chosen w1 = map (\<lambda>(i, opt). make_key i)
              (filter (\<lambda>(i, opt). o_selected opt) (List.enumerate 0 els))"
    and p: "preserveSelectionOrder w1 = pso"
    using l by simp_all
  have b: "buildState (fresh els sf mode pso) =
      (let w2 = w1\<lparr>available := sortByIndex (options w1) (available w1)\<rparr>
       in if \<not> preserveSelectionOrder w2
          then w2\<lparr>chosen := sortByIndex (options w2) (chosen w2)\<rparr> else w2)"
    by (simp add: buildState_def w1_def Let_def)
  have sa: "sortByIndex (options w1) (available w1) = available w1"
    unfolding o a by (rule sortByIndex_sorted) (rule registry_sorted)
  have sc: "sortByIndex (options w1) (chosen w1) = chosen w1"
    unfolding o c by (rule sortByIndex_sorted) (rule registry_sorted)
  have "buildState (fresh els sf mode pso) = w1"
    unfolding b by (simp add: Let_def sa sc)
  then show ?thesis
    using o a c by simp
qed

lemma enumerate_key_mem:
  "make_key i \<in> set (map (\<lambda>(i, opt). make_key i) (filter (\<lambda>(i, opt). Q opt) (List.enumerate 0 els)))
     \<longleftrightarrow> i < length els \<and> Q (els ! i)"
  by (auto simp: in_set_enumerate_eq image_iff)

text \<open>
  The keys \<open>_buildState\<close> assigns start with \<open>fsm-\<close>: the registry built from the
  example \<open>select\<close> has the keys \<open>fsm-0\<close> to \<open>fsm-4\<close> and no entry for \<open>item-0\<close>.
\<close>

theorem load_key_counterexample:
  "map fst (options (buildState (fresh demo_select True ''contains'' False)))
     = [''fsm-0'', ''fsm-1'', ''fsm-2'', ''fsm-3'', ''fsm-4'']
   \<and> map_of (options (buildState (fresh demo_select True ''contains'' False)))
       (''item-'' @ decimal 0) = None
   \<and> available (buildState (fresh demo_select True ''contains'' False))
       = [''fsm-0'', ''fsm-1'', ''fsm-3'', ''fsm-4'']
   \<and> chosen (buildState (fresh demo_select True ''contains'' False)) = [''fsm-2'']"
  by code_simp

text \<open>
  C9. \<open>_buildState\<close>, from the state the constructor sets up: the option at position
  \<open>i\<close> gets the key \<open>fsm-\<close> followed by the decimal digits of \<open>i\<close>; the registry maps
  that key to an entry that holds the key, the index \<open>i\<close> and the fields of the option;
  the key is in the chosen partition and not in the available one when the option is
  selected, and in the available partition and not in the chosen one otherwise.
\<close>

theorem buildState_assigns_keys:
  assumes "i < length els"
  shows "map_of (options (buildState (fresh els sf mode pso))) (''fsm-'' @ decimal i)
           = Some (make_meta (els ! i) i)
       \<and> m_key (make_meta (els ! i) i) = ''fsm-'' @ decimal i
       \<and> m_index (make_meta (els ! i) i) = i
       \<and> (o_selected (els ! i) \<longrightarrow>
            ''fsm-'' @ decimal i \<in> set (chosen (buildState (fresh els sf mode pso)))
          \<and> ''fsm-'' @ decimal i \<notin> set (available (buildState (fresh els sf mode pso))))
       \<and> (\<not> o_selected (els ! i) \<longrightarrow>
            ''fsm-'' @ decimal i \<in> set (available (buildState (fresh els sf mode pso)))
          \<and> ''fsm-'' @ decimal i \<notin> set (chosen (buildState (fresh els sf mode pso))))"
proof -
  define w where "w = buildState (fresh els sf mode pso)"
  note b = buildState_fresh[of els sf mode pso, folded w_def]
  have 1: "map_of (options w) (make_key i) = Some (make_meta (els ! i) i)"
    using registry_lookup[OF assms] conjunct1[OF b] by simp
  have 2: "m_key (make_meta (els ! i) i) = make_key i"
    and 3: "m_index (make_meta (els ! i) i) = i"
    by (simp_all add: make_meta_def)
  have 4: "make_key i \<in> set (chosen w) \<longleftrightarrow> o_selected (els ! i)"
    using assms enumerate_key_mem[of i o_selected els] conjunct2[OF conjunct2[OF b]] by simp
  have 5: "make_key i \<in> set (available w) \<longleftrightarrow> \<not> o_selected (els ! i)"
    using assms enumerate_key_mem[of i "\<lambda>opt. \<not> o_selected opt" els]
      conjunct1[OF conjunct2[OF b]] by simp
  have "map_of (options w) (make_key i) = Some (make_meta (els ! i) i)
       \<and> m_key (make_meta (els ! i) i) = make_key i
       \<and> m_index (make_meta (els ! i) i) = i
       \<and> (o_selected (els ! i) \<longrightarrow> make_key i \<in> set (chosen w) \<and> make_key i \<notin> set (available w))
       \<and> (\<not> o_selected (els ! i) \<longrightarrow> make_key i \<in> set (available w) \<and> make_key i \<notin> set (chosen w))"
    using 1 2 3 4 5 by blast
  then show ?thesis
    unfolding w_def make_key_def .
qed

lemma demo_select_third: "2 < length demo_select \<and> o_selected (demo_select ! 2) \<and> decimal 2 = ''2''"
  by code_simp

theorem buildState_assigns_keys_witness:
  "2 < length demo_select
   \<and> o_selected (demo_select ! 2)
   \<and> map_of (options (buildState (fresh demo_select True ''contains'' False))) ''fsm-2''
       = Some (make_meta (demo_select ! 2) 2)
   \<and> ''fsm-2'' \<in> set (chosen (buildState (fresh demo_select True ''contains'' False)))
   \<and> ''fsm-2'' \<notin> set (available (buildState (fresh demo_select True ''contains'' False)))"
proof -
  have l: "2 < length demo_select" and s: "o_selected (demo_select ! 2)"
    and d: "''fsm-'' @ decimal 2 = ''fsm-2''"
    using demo_select_third by simp_all
  note k = buildState_assigns_keys[OF l, of True "''contains''" False, unfolded d]
  from k l s show ?thesis by blast
qed

section \<open>Completeness of the partitions\<close>

text \<open>
  \<open>_buildState\<close> builds complete partitions, and a transfer between the two partitions
  of distinct keys of the partition they are taken from keeps them complete. Every
  transfer the widget makes is of that kind as long as the options of a pane report the
  keys they were rendered for, which they do when no option of the original \<open>select\<close>
  has a \<open>data-key\<close> attribute. Then every widget the events lead to is consistent.
\<close>

lemma partition_complete_sym:
  assumes "f \<noteq> t"
  shows "partition_complete w \<longleftrightarrow>
     distinct (partition_of f w) \<and> distinct (partition_of t w)
     \<and> set (partition_of f w) \<inter> set (partition_of t w) = {}
     \<and> set (partition_of f w) \<union> set (partition_of t w) = fst ` set (options w)"
  using assms by (cases f; cases t) (auto simp: partition_complete_def)

lemma transfer_partition_complete:
  assumes "f \<noteq> t" "distinct keys" "set keys \<subseteq> set (partition_of f w)" "partition_complete w"
  shows "partition_complete (transfer keys f t w)"
proof -
  note pc = partition_complete_sym[OF assms(1)]
  have d: "distinct (partition_of f w)" "distinct (partition_of t w)"
    "set (partition_of f w) \<inter> set (partition_of t w) = {}"
    "set (partition_of f w) \<union> set (partition_of t w) = fst ` set (options w)"
    using assms(4) by (simp_all add: pc)
  have kt: "set keys \<inter> set (partition_of t w) = {}"
    using assms(3) d(3) by blast
  have "distinct (partition_of t w @ keys)"
    using d(2) assms(2) kt by auto
  then have dt: "distinct (partition_of t (transfer keys f t w))"
    using assms(1) by (simp add: transfer_to)
  have df: "distinct (partition_of f (transfer keys f t w))"
    using assms(1) d(1) by (simp add: transfer_from)
  have sf: "set (partition_of f (transfer keys f t w)) = set (partition_of f w) - set keys"
    using assms(1) by (auto simp: transfer_from)
  have st: "set (partition_of t (transfer keys f t w)) = set (partition_of t w) \<union> set keys"
    using assms(1) by (auto simp: transfer_to)
  have "set (partition_of f (transfer keys f t w)) \<inter> set (partition_of t (transfer keys f t w)) = {}"
    unfolding sf st using d(3) by blast
  moreover have "set (partition_of f (transfer keys f t w)) \<union> set (partition_of t (transfer keys f t w))
      = fst ` set (options (transfer keys f t w))"
    unfolding sf st using d(4) assms(3) by auto
  ultimately show ?thesis
    using df dt by (simp add: pc)
qed

lemma moveAll_partition_complete:
  assumes "f \<noteq> t" "partition_complete w"
  shows "partition_complete (moveAll f t w)"
proof -
  have "distinct (partition_of f w)"
    using assms by (simp add: partition_complete_sym[OF assms(1)])
  then show ?thesis
    using assms by (auto simp: moveAll_unfold intro!: transfer_partition_complete)
qed

lemma buildState_partition_complete:
  "partition_complete (buildState (fresh els sf mode pso))"
proof -
  let ?E = "List.enumerate 0 els"
  let ?w = "buildState (fresh els sf mode pso)"
  note b = buildState_fresh[of els sf mode pso]
  have mk: "map (\<lambda>(i, opt). make_key i) (filter Q ?E) = map make_key (map fst (filter Q ?E))" for Q
    by (simp add: case_prod_unfold comp_def)
  have dE: "distinct (map fst ?E)" by (simp add: map_fst_enumerate)
  have 1: "distinct (map fst (filter (\<lambda>(i, opt). \<not> o_selected opt) ?E)
                @ map fst (filter (\<lambda>(i, opt). o_selected opt) ?E))"
    using dE by (auto simp: distinct_map_filter dest!: in_set_enumerate_eq[THEN iffD1])
  have av: "available ?w = map make_key (map fst (filter (\<lambda>(i, opt). \<not> o_selected opt) ?E))"
    and ch: "chosen ?w = map make_key (map fst (filter (\<lambda>(i, opt). o_selected opt) ?E))"
    using b by (simp_all only: mk)
  have "available ?w @ chosen ?w =
      map make_key (map fst (filter (\<lambda>(i, opt). \<not> o_selected opt) ?E)
                    @ map fst (filter (\<lambda>(i, opt). o_selected opt) ?E))"
    by (simp only: av ch map_append)
  then have d: "distinct (available ?w @ chosen ?w)"
    using 1 by (simp only: distinct_map) (simp add: inj_on_def)
  have "set (available ?w @ chosen ?w) = make_key ` fst ` set ?E"
    unfolding av ch by auto
  also have "\<dots> = set (map fst (options ?w))"
  proof -
    have "fst ` set ?E = set (map fst ?E)" by (simp only: set_map)
    also have "\<dots> = {0..<length els}" by simp
    finally show ?thesis
      unfolding conjunct1[OF b] registry_keys by simp
  qed
  finally have "set (available ?w @ chosen ?w) = fst ` set (options ?w)" by simp
  with d show ?thesis by (simp only: partition_complete_def)
qed


lemma fold_update_other:
  "k \<notin> fst ` set xs \<Longrightarrow>
     map_of (fold (\<lambda>(attr, v) ds. AList.update attr v ds) xs ds) k = map_of ds k"
  by (induction xs arbitrary: ds) (auto simp: update_conv')

lemma renderOption_key:
  assumes "no_key_attribute (m_dataset m)"
  shows "map_of (o_dataset (renderOption prev key m)) ''key'' = Some key"
proof -
  have "''key'' \<notin> fst ` set (m_dataset m)"
    using assms by (simp add: no_key_attribute_def map_of_eq_None_iff)
  then show ?thesis
    by (simp add: renderOption_def Let_def fold_update_other)
qed

lemma rendered_keys:
  assumes "list_all (\<lambda>(k, m). no_key_attribute (m_dataset m)) opts"
  shows "map (\<lambda>opt. map_of (o_dataset opt) ''key'')
           (concat (map (\<lambda>key. case map_of opts key of
                                 None \<Rightarrow> []
                               | Some m \<Rightarrow> if V m then [] else [renderOption prev key m]) keys))
       = map Some (filter (\<lambda>key. case map_of opts key of None \<Rightarrow> False | Some m \<Rightarrow> \<not> V m) keys)"
proof (induction keys)
  case Nil
  then show ?case by simp
next
  case (Cons key keys)
  show ?case
  proof (cases "map_of opts key")
    case None
    then show ?thesis using Cons by simp
  next
    case (Some m)
    then have "(key, m) \<in> set opts" by (rule map_of_SomeD)
    then have "no_key_attribute (m_dataset m)"
      using assms by (auto simp: list_all_iff)
    then show ?thesis using Cons Some by (simp add: renderOption_key)
  qed
qed

lemma pane_keys_renderPane:
  assumes "regs_ok w"
  shows "pane_keys p (renderPane p w) = map Some (filter (shown w p) (partition_of p w))"
proof -
  have "select_of p (renderPane p w) =
      concat (map (\<lambda>key. case map_of (options w) key of
                 None \<Rightarrow> []
               | Some m \<Rightarrow>
                   if filterTerm (filter_of p w) \<noteq> []
                      \<and> \<not> passesFilter (filterMatchMode w) (m_label m) (filterTerm (filter_of p w))
                   then []
                   else [renderOption (set (getSelectedKeys (select_of p w))) key m])
              (partition_of p w))"
  proof (cases p)
    case Available
    show ?thesis unfolding Available
      by (simp add: renderPane_def Let_def cong: option.case_cong if_cong)
  next
    case Chosen
    show ?thesis unfolding Chosen
      by (simp add: renderPane_def Let_def cong: option.case_cong if_cong)
  qed
  then show ?thesis
    unfolding pane_keys_def using rendered_keys[OF assms[unfolded regs_ok_def]]
    by (simp add: shown_def[abs_def])
qed

lemma pane_keys_renderPane_other:
  "p \<noteq> q \<Longrightarrow> pane_keys q (renderPane p w) = pane_keys q w"
  by (cases p; cases q) (simp_all add: pane_keys_def renderPane_def Let_def)

lemma pane_keys_updateButtons [simp]: "pane_keys p (updateButtons w) = pane_keys p w"
  by (cases p) (simp_all add: pane_keys_def)


lemma pane_ok_renderPane:
  assumes "regs_ok w" "distinct (partition_of p w)"
  shows "pane_ok p (renderPane p w)"
  using assms(2)
  by (auto simp: pane_ok_def pane_keys_renderPane[OF assms(1)] distinct_map list_all_iff
      intro: inj_onI)

lemma pane_ok_renderPane_other: "p \<noteq> q \<Longrightarrow> pane_ok q (renderPane p w) = pane_ok q w"
  by (simp add: pane_ok_def pane_keys_renderPane_other)

lemma pane_ok_updateButtons [simp]: "pane_ok p (updateButtons w) = pane_ok p w"
  by (simp add: pane_ok_def)

lemma regs_ok_frame [simp]:
  "regs_ok (updateButtons w) = regs_ok w"
  "regs_ok (renderPane p w) = regs_ok w"
  "regs_ok (render w) = regs_ok w"
  "regs_ok (dispatchChange w) = regs_ok w"
  by (simp_all add: regs_ok_def)

lemma partition_complete_cong:
  "options a = options b \<Longrightarrow> available a = available b \<Longrightarrow> chosen a = chosen b \<Longrightarrow>
     partition_complete a = partition_complete b"
  by (simp add: partition_complete_def)

lemma partition_complete_frame [simp]:
  "partition_complete (updateButtons w) = partition_complete w"
  "partition_complete (renderPane p w) = partition_complete w"
  "partition_complete (render w) = partition_complete w"
  "partition_complete (dispatchChange w) = partition_complete w"
  by (simp_all add: partition_complete_def)

lemma partition_complete_distinct:
  "partition_complete w \<Longrightarrow> distinct (partition_of p w)"
  by (cases p) (simp_all add: partition_complete_def)

lemma renderPane_consistent:
  assumes "consistent w"
  shows "consistent (renderPane p w)"
proof -
  have pc: "partition_complete w" and r: "regs_ok w"
    and a: "pane_ok Available w" and c: "pane_ok Chosen w"
    using assms by (simp_all add: consistent_def)
  have "pane_ok p (renderPane p w)"
    using r partition_complete_distinct[OF pc] by (rule pane_ok_renderPane)
  then have "pane_ok Available (renderPane p w) \<and> pane_ok Chosen (renderPane p w)"
    using a c by (cases p) (simp_all add: pane_ok_renderPane_other)
  then show ?thesis using pc r by (simp add: consistent_def)
qed

lemma render_consistent:
  assumes "partition_complete w" "regs_ok w"
  shows "consistent (render w)"
proof -
  have 1: "pane_ok Available (renderPane Available w)"
    using assms(2) partition_complete_distinct[OF assms(1)] by (rule pane_ok_renderPane)
  have "distinct (partition_of Chosen (renderPane Available w))"
    using partition_complete_distinct[OF assms(1), of Chosen] by simp
  then have 2: "pane_ok Chosen (renderPane Chosen (renderPane Available w))"
    using assms(2) by (intro pane_ok_renderPane) simp_all
  have 3: "pane_ok Available (renderPane Chosen (renderPane Available w))"
    using 1 by (simp add: pane_ok_renderPane_other)
  show ?thesis
    using assms 2 3 by (simp add: consistent_def render_def)
qed

lemma dispatchChange_consistent [simp]: "consistent (dispatchChange w) = consistent w"
  by (simp add: consistent_def pane_ok_def pane_keys_def dispatchChange_def partition_complete_def
      regs_ok_def)

lemma transfer_as_render:
  "\<exists>w'. transfer keys f t w = dispatchChange (render w') \<and> options w' = options w"
  unfolding transfer_def Let_def
  by (rule exI, rule conjI, rule refl) simp

lemma transfer_consistent:
  assumes "partition_complete w" "regs_ok w"
    and "f \<noteq> t" "distinct keys" "set keys \<subseteq> set (partition_of f w)"
  shows "consistent (transfer keys f t w)"
proof -
  obtain w' where w': "transfer keys f t w = dispatchChange (render w')" "options w' = options w"
    using transfer_as_render by blast
  have pc: "partition_complete (transfer keys f t w)"
    using assms(3,4,5,1) by (rule transfer_partition_complete)
  have "partition_complete w'"
    using pc unfolding w'(1) by simp
  moreover have "regs_ok w'" using assms(2) w'(2) by (simp add: regs_ok_def)
  ultimately have "consistent (render w')" by (rule render_consistent)
  then show ?thesis by (simp add: w'(1))
qed

lemma moveAll_consistent:
  assumes "consistent w" "f \<noteq> t"
  shows "consistent (moveAll f t w)"
proof -
  have pc: "partition_complete w" and r: "regs_ok w"
    using assms(1) by (simp_all add: consistent_def)
  show ?thesis
    using assms partition_complete_distinct[OF pc, of f]
    by (auto simp: moveAll_unfold intro!: transfer_consistent[OF pc r])
qed

lemma distinct_map_filter_Some:
  assumes "distinct xs" "\<And>x y. g x = Some y \<Longrightarrow> x = Some y"
  shows "distinct (List.map_filter g xs)"
  using assms(1)
proof (induction xs)
  case Nil
  then show ?case by (simp add: List.map_filter_simps)
next
  case (Cons x xs)
  show ?case
  proof (cases "g x")
    case None
    then show ?thesis using Cons by (simp add: List.map_filter_simps)
  next
    case (Some y)
    then have "x = Some y" by (rule assms(2))
    moreover have "y \<in> set (List.map_filter g xs) \<Longrightarrow> Some y \<in> set xs"
      using assms(2) by (auto simp: set_map_filter)
    ultimately show ?thesis using Cons Some by (auto simp: List.map_filter_simps)
  qed
qed

lemma moveSelected_consistent:
  assumes "consistent w" "f \<noteq> t"
  shows "consistent (moveSelected f t w)"
proof -
  have pc: "partition_complete w" and r: "regs_ok w" and po: "pane_ok f w"
    using assms(1) by (cases f; simp add: consistent_def)+
  let ?g = "\<lambda>k. case k of None \<Rightarrow> None
               | Some key \<Rightarrow> if eligible (options w) key then Some key else None"
  let ?keys = "List.map_filter ?g (getSelectedKeys (select_of f w))"
  have sel: "getSelectedKeys (select_of f w)
      = map (\<lambda>opt. map_of (o_dataset opt) ''key'') (filter o_selected (select_of f w))"
    by (simp add: getSelectedKeys_def selectedOptions_def)
  have "distinct (getSelectedKeys (select_of f w))"
    using po unfolding sel pane_ok_def pane_keys_def by (simp add: distinct_map_filter)
  moreover have g: "?g x = Some y \<Longrightarrow> x = Some y" for x y
    by (auto split: option.splits if_splits)
  ultimately have d: "distinct ?keys" by (rule distinct_map_filter_Some)
  have "set (getSelectedKeys (select_of f w)) \<subseteq> set (pane_keys f w)"
    unfolding sel pane_keys_def by auto
  then have "set (getSelectedKeys (select_of f w)) \<subseteq> Some ` set (partition_of f w)"
    using po by (auto simp: pane_ok_def list_all_iff)
  then have s: "set ?keys \<subseteq> set (partition_of f w)"
    using g by (auto simp: set_map_filter)
  have "consistent (transfer ?keys f t w)"
    using pc r assms(2) d s by (rule transfer_consistent)
  then show ?thesis
    using assms(1) by (simp add: moveSelected_def Let_def)
qed

lemma pane_keys_setSelection:
  "map (\<lambda>opt. map_of (o_dataset opt) ''key'') (setSelection sel select)
     = map (\<lambda>opt. map_of (o_dataset opt) ''key'') select"
proof -
  have z: "map fst (zip select [0..<length select]) = select" by simp
  have "map (\<lambda>opt. map_of (o_dataset opt) ''key'') (setSelection sel select)
      = map (\<lambda>x. map_of (o_dataset (fst x)) ''key'') (zip select [0..<length select])"
    by (simp add: setSelection_def case_prod_unfold comp_def)
  also have "\<dots>
      = map (\<lambda>opt. map_of (o_dataset opt) ''key'') (map fst (zip select [0..<length select]))"
    by (simp only: map_map comp_def)
  also have "\<dots> = map (\<lambda>opt. map_of (o_dataset opt) ''key'') select"
    by (simp only: z)
  finally show ?thesis .
qed

lemma handle_consistent:
  assumes "consistent w"
  shows "consistent (handle ev w)"
proof (cases ev)
  case (Click act)
  then show ?thesis
    using assms by (cases act) (simp_all add: moveAll_consistent moveSelected_consistent)
next
  case (DblClick p)
  then show ?thesis
    using assms by (cases p) (simp_all add: moveSelected_consistent)
next
  case (EnterKey p)
  then show ?thesis
    using assms by (cases p) (simp_all add: moveSelected_consistent)
next
  case (Change p sel)
  then show ?thesis
    using assms
    by (cases p)
       (simp_all add: consistent_def pane_ok_def pane_keys_def pane_keys_setSelection
         partition_complete_def regs_ok_def)
next
  case (Input p v)
  then show ?thesis
    using assms
    by (cases p)
       (auto simp: consistent_def pane_ok_def pane_keys_def partition_complete_def regs_ok_def
          split: option.splits)
next
  case (FilterTimeout p)
  then show ?thesis using assms by (simp add: renderPane_consistent)
qed

lemma run_consistent: "consistent w \<Longrightarrow> consistent (run evs w)"
  unfolding run_def by (induction evs arbitrary: w) (simp_all add: handle_consistent)

lemma init_consistent:
  assumes "list_all (\<lambda>opt. no_key_attribute (o_dataset opt)) els"
  shows "consistent (init (fresh els sf mode pso))"
proof -
  let ?b = "buildState (fresh els sf mode pso)"
  have "options (buildUI ?b) = options ?b" "available (buildUI ?b) = available ?b"
    "chosen (buildUI ?b) = chosen ?b"
    by (simp_all add: buildUI_def)
  then have pc: "partition_complete (buildUI ?b)"
    using buildState_partition_complete[of els sf mode pso]
    by (simp add: partition_complete_def)
  have "regs_ok ?b"
    using assms
    by (auto simp: regs_ok_def conjunct1[OF buildState_fresh] list_all_iff make_meta_def
        in_set_enumerate_eq)
  then have "regs_ok (buildUI ?b)" by (simp add: regs_ok_def buildUI_def)
  with pc show ?thesis unfolding init_def by (rule render_consistent)
qed

lemma reachable_consistent:
  assumes "list_all (\<lambda>opt. no_key_attribute (o_dataset opt)) els"
  shows "consistent (run evs (init (fresh els sf mode pso)))"
  using init_consistent[OF assms] by (rule run_consistent)

lemma reachable_partition_complete:
  assumes "list_all (\<lambda>opt. no_key_attribute (o_dataset opt)) els"
  shows "partition_complete (run evs (init (fresh els sf mode pso)))"
  using reachable_consistent[OF assms] by (simp add: consistent_def)

section \<open>What holds of every widget the events lead to\<close>

text \<open>
  Whatever the options of the original \<open>select\<close> are: the registry does not change
  after construction, the partitions hold keys of the registry only, and the indices of
  the registry are positions of options.
\<close>

lemma eligible_registered: "eligible opts key \<Longrightarrow> key \<in> fst ` set opts"
  by (auto simp: eligible_def split: option.splits dest!: map_of_SomeD intro: rev_image_eqI)

lemma transfer_registered:
  assumes "set (available w) \<union> set (chosen w) \<subseteq> fst ` set (options w)"
    and "set keys \<subseteq> fst ` set (options w)"
  shows "set (available (transfer keys f t w)) \<union> set (chosen (transfer keys f t w))
           \<subseteq> fst ` set (options (transfer keys f t w))"
proof -
  have "set (partition_of p (transfer keys f t w))
          \<subseteq> set (available w) \<union> set (chosen w) \<union> set keys" for p
    by (cases f; cases t; cases p) (auto simp: transfer_def Let_def)
  from this[of Available] this[of Chosen] show ?thesis
    using assms by auto
qed

lemma handle_options [simp]: "options (handle ev w) = options w"
proof (cases ev)
  case (Click act)
  then show ?thesis
    by (cases act) (simp_all add: moveAll_def moveSelected_def Let_def)
next
  case (DblClick p)
  then show ?thesis by (simp add: moveSelected_def Let_def)
next
  case (EnterKey p)
  then show ?thesis by (simp add: moveSelected_def Let_def)
next
  case (Change p sel)
  then show ?thesis by (cases p) simp_all
next
  case (Input p v)
  then show ?thesis by (cases p) (simp_all split: option.splits)
next
  case (FilterTimeout p)
  then show ?thesis by simp
qed

lemma run_options [simp]: "options (run evs w) = options w"
  unfolding run_def by (induction evs arbitrary: w) simp_all

lemma moveAll_registered:
  assumes "set (available w) \<union> set (chosen w) \<subseteq> fst ` set (options w)"
  shows "set (available (moveAll f t w)) \<union> set (chosen (moveAll f t w))
           \<subseteq> fst ` set (options (moveAll f t w))"
proof (cases "\<exists>key \<in> set (partition_of f w). eligible (options w) key")
  case True
  have "set (filter (eligible (options w)) (partition_of f w)) \<subseteq> fst ` set (options w)"
    using eligible_registered by auto
  from transfer_registered[OF assms this] True show ?thesis
    by (simp add: moveAll_unfold)
next
  case False
  then show ?thesis using assms by (simp add: moveAll_unfold)
qed

lemma moveSelected_registered:
  assumes "set (available w) \<union> set (chosen w) \<subseteq> fst ` set (options w)"
  shows "set (available (moveSelected f t w)) \<union> set (chosen (moveSelected f t w))
           \<subseteq> fst ` set (options (moveSelected f t w))"
proof -
  let ?keys = "List.map_filter
          (\<lambda>k. case k of None \<Rightarrow> None
               | Some key \<Rightarrow> if eligible (options w) key then Some key else None)
          (getSelectedKeys (select_of f w))"
  have "set ?keys \<subseteq> fst ` set (options w)"
    unfolding moveSelected_keys using eligible_registered by auto
  from transfer_registered[OF assms this] assms show ?thesis
    by (simp add: moveSelected_def Let_def)
qed

lemma handle_registered:
  assumes "set (available w) \<union> set (chosen w) \<subseteq> fst ` set (options w)"
  shows "set (available (handle ev w)) \<union> set (chosen (handle ev w))
           \<subseteq> fst ` set (options (handle ev w))"
proof (cases ev)
  case (Click act)
  then show ?thesis
    using assms moveAll_registered[OF assms] moveSelected_registered[OF assms]
    by (cases act) (simp_all del: handle_options)
next
  case (DblClick p)
  then show ?thesis using moveSelected_registered[OF assms] by (simp del: handle_options)
next
  case (EnterKey p)
  then show ?thesis using moveSelected_registered[OF assms] by (simp del: handle_options)
next
  case (Change p sel)
  then show ?thesis using assms by (cases p) simp_all
next
  case (Input p v)
  then show ?thesis using assms by (cases p) (simp_all split: option.splits)
next
  case (FilterTimeout p)
  then show ?thesis using assms by simp
qed

lemma init_partition_complete: "partition_complete (init (fresh els sf mode pso))"
proof -
  let ?b = "buildState (fresh els sf mode pso)"
  have "partition_complete (buildUI ?b) = partition_complete ?b"
    by (rule partition_complete_cong) (simp_all add: buildUI_def)
  then show ?thesis
    using buildState_partition_complete[of els sf mode pso] by (simp add: init_def)
qed

lemma reachable_registered:
  "set (available (run evs (init (fresh els sf mode pso))))
     \<union> set (chosen (run evs (init (fresh els sf mode pso))))
   \<subseteq> fst ` set (options (run evs (init (fresh els sf mode pso))))"
proof -
  have "set (available w) \<union> set (chosen w) \<subseteq> fst ` set (options w) \<Longrightarrow>
        set (available (fold handle evs w)) \<union> set (chosen (fold handle evs w))
          \<subseteq> fst ` set (options (fold handle evs w))" for w
  proof (induction evs arbitrary: w)
    case Nil
    then show ?case by simp
  next
    case (Cons ev evs)
    show ?case using Cons.IH[OF handle_registered[OF Cons.prems]] by simp
  qed
  moreover have "set (available (init (fresh els sf mode pso)))
      \<union> set (chosen (init (fresh els sf mode pso)))
      \<subseteq> fst ` set (options (init (fresh els sf mode pso)))"
    using init_partition_complete[of els sf mode pso] by (simp add: partition_complete_def)
  ultimately show ?thesis unfolding run_def by blast
qed


lemma init_options:
  "options (init (fresh els sf mode pso)) =
     map (\<lambda>(i, opt). (make_key i, make_meta opt i)) (List.enumerate 0 els)"
  by (simp add: init_def buildUI_def conjunct1[OF buildState_fresh])

lemma reachable_indices:
  assumes "length els \<le> MAX_SAFE_INTEGER"
  shows "\<forall>(k, m) \<in> set (options (run evs (init (fresh els sf mode pso)))).
           m_index m < MAX_SAFE_INTEGER"
  using assms by (auto simp: init_options in_set_enumerate_eq make_meta_def)

section \<open>A transfer as the listeners of its event find it\<close>

lemma renderPane_select: "select_of p (renderPane p w) = renderFragment p w"
proof (cases p)
  case Available
  show ?thesis unfolding Available
    by (simp add: renderPane_def renderFragment_def Let_def cong: option.case_cong if_cong)
next
  case Chosen
  show ?thesis unfolding Chosen
    by (simp add: renderPane_def renderFragment_def Let_def cong: option.case_cong if_cong)
qed

lemma renderPane_select_other: "p \<noteq> q \<Longrightarrow> select_of q (renderPane p w) = select_of q w"
  by (cases p; cases q) (simp_all add: renderPane_def Let_def)

lemma renderFragment_cong:
  assumes "options a = options b" "partition_of p a = partition_of p b"
    "filter_of p a = filter_of p b" "filterMatchMode a = filterMatchMode b"
    "select_of p a = select_of p b"
  shows "renderFragment p a = renderFragment p b"
  unfolding renderFragment_def assms ..

text \<open>The loop of \<open>_syncToOriginal\<close> over a registry built by \<open>_buildState\<close>.\<close>

lemma sync_fold:
  fixes C :: "string set"
  defines "step \<equiv> (\<lambda>(k, m) els.
     els[m_original m := (els ! m_original m)\<lparr>o_selected := (m_key m \<in> C)\<rparr>])"
  shows "length (fold step (map (\<lambda>(i, opt). (make_key i, make_meta opt i)) (List.enumerate j src)) xs)
           = length xs
       \<and> (\<forall>i < length xs.
            o_selected (fold step (map (\<lambda>(i, opt). (make_key i, make_meta opt i))
                                     (List.enumerate j src)) xs ! i)
              = (if j \<le> i \<and> i < j + length src then make_key i \<in> C else o_selected (xs ! i)))"
proof (induction src arbitrary: j xs)
  case Nil
  then show ?case by auto
next
  case (Cons a src)
  let ?xs = "xs[j := (xs ! j)\<lparr>o_selected := (make_key j \<in> C)\<rparr>]"
  have s: "step (make_key j, make_meta a j) xs = ?xs"
    by (simp add: step_def make_meta_def)
  note ih = Cons.IH[of "Suc j" ?xs]
  have len: "length ?xs = length xs" by simp
  show ?case
  proof (intro conjI allI impI)
    show "length (fold step (map (\<lambda>(i, opt). (make_key i, make_meta opt i))
            (List.enumerate j (a # src))) xs) = length xs"
      using ih by (simp add: s)
  next
    fix i assume i: "i < length xs"
    have "o_selected (fold step (map (\<lambda>(i, opt). (make_key i, make_meta opt i))
            (List.enumerate (Suc j) src)) ?xs ! i)
        = (if Suc j \<le> i \<and> i < Suc j + length src then make_key i \<in> C else o_selected (?xs ! i))"
      using ih i by simp
    moreover have "o_selected (?xs ! i) = (if i = j then make_key j \<in> C else o_selected (xs ! i))"
      using i by (simp add: nth_list_update)
    ultimately show "o_selected (fold step (map (\<lambda>(i, opt). (make_key i, make_meta opt i))
            (List.enumerate j (a # src))) xs ! i)
        = (if j \<le> i \<and> i < j + length (a # src) then make_key i \<in> C else o_selected (xs ! i))"
      by (auto simp: s)
  qed
qed

lemma syncToOriginal_selected:
  assumes "options w = map (\<lambda>(i, opt). (make_key i, make_meta opt i)) (List.enumerate 0 els)"
    and "length (selectElement w) = length els"
  shows "map o_selected (selectElement (syncToOriginal w))
           = map (\<lambda>i. make_key i \<in> set (chosen w)) [0..<length els]"
proof (rule nth_equalityI)
  note f = sync_fold[of "set (chosen w)" 0 els "selectElement w"]
  have se: "selectElement (syncToOriginal w) =
      fold (\<lambda>(k, m) els.
         els[m_original m := (els ! m_original m)\<lparr>o_selected := (m_key m \<in> set (chosen w))\<rparr>])
        (map (\<lambda>(i, opt). (make_key i, make_meta opt i)) (List.enumerate 0 els)) (selectElement w)"
    by (simp add: syncToOriginal_def Let_def assms(1))
  show "length (map o_selected (selectElement (syncToOriginal w)))
      = length (map (\<lambda>i. make_key i \<in> set (chosen w)) [0..<length els])"
    using f assms(2) by (simp add: se)
  fix i assume "i < length (map o_selected (selectElement (syncToOriginal w)))"
  then have i: "i < length els" using f assms(2) by (simp add: se)
  then show "map o_selected (selectElement (syncToOriginal w)) ! i
      = map (\<lambda>i. make_key i \<in> set (chosen w)) [0..<length els] ! i"
    using f assms(2) by (simp add: se)
qed

lemma syncToOriginal_length [simp]:
  "length (selectElement (syncToOriginal w)) = length (selectElement w)"
proof -
  have "length (fold (\<lambda>(k, m) els.
         els[m_original m := (els ! m_original m)\<lparr>o_selected := (m_key m \<in> C)\<rparr>]) xs ys)
       = length ys" for C xs ys
    by (induction xs arbitrary: ys) (simp_all add: case_prod_unfold)
  then show ?thesis by (simp add: syncToOriginal_def Let_def)
qed

lemma transfer_selectElement_length [simp]:
  "length (selectElement (transfer keys f t w)) = length (selectElement w)"
  by (simp add: transfer_def Let_def)

lemma handle_selectElement_length [simp]:
  "length (selectElement (handle ev w)) = length (selectElement w)"
proof (cases ev)
  case (Click act)
  then show ?thesis by (cases act) (simp_all add: moveAll_def moveSelected_def Let_def)
next
  case (DblClick p)
  then show ?thesis by (simp add: moveSelected_def Let_def)
next
  case (EnterKey p)
  then show ?thesis by (simp add: moveSelected_def Let_def)
next
  case (Change p sel)
  then show ?thesis by (cases p) simp_all
next
  case (Input p v)
  then show ?thesis by (cases p) (simp_all split: option.splits)
next
  case (FilterTimeout p)
  then show ?thesis by simp
qed

lemma run_selectElement_length [simp]:
  "length (selectElement (run evs w)) = length (selectElement w)"
  unfolding run_def by (induction evs arbitrary: w) simp_all

lemma init_selectElement [simp]: "selectElement (init (fresh els sf mode pso)) = els"
  by (simp add: init_def buildUI_def buildState_def Let_def
      conjunct2[OF conjunct2[OF conjunct2[OF conjunct2[OF buildState_loop_spec]]]])


lemma dispatched_frame [simp]:
  "dispatched (setButtonState a d w) = dispatched w"
  "dispatched (updateButtons w) = dispatched w"
  "dispatched (renderPane p w) = dispatched w"
  "dispatched (render w) = dispatched w"
  "dispatched (syncToOriginal w) = dispatched w"
  "dispatched (set_partition p ks w) = dispatched w"
proof -
  show "dispatched (setButtonState a d w) = dispatched w" by (simp add: setButtonState_def)
  then show u: "dispatched (updateButtons w) = dispatched w" for w
    by (simp add: updateButtons_def Let_def setButtonState_def)
  show r: "dispatched (renderPane p w) = dispatched w" for p w
    by (cases p) (simp_all add: renderPane_def Let_def u)
  show "dispatched (render w) = dispatched w" by (simp add: render_def u r)
  show "dispatched (syncToOriginal w) = dispatched w" by (simp add: syncToOriginal_def Let_def)
  show "dispatched (set_partition p ks w) = dispatched w" by (cases p) simp_all
qed

lemma select_of_frame [simp]:
  "select_of p (updateButtons w) = select_of p w"
  "select_of p (syncToOriginal w) = select_of p w"
  "select_of p (set_partition q ks w) = select_of p w"
  "filter_of p (updateButtons w) = filter_of p w"
  "filter_of p (renderPane q w) = filter_of p w"
  "filter_of p (syncToOriginal w) = filter_of p w"
  "filter_of p (set_partition q ks w) = filter_of p w"
  by (cases p; simp)+

lemma dispatchChange_dispatched:
  "dispatched (dispatchChange w) = dispatched w @
     [\<lparr>n_selected = map o_selected (selectElement w),
       n_available = availableSelect w, n_chosen = chosenSelect w\<rparr>]"
  by (simp add: dispatchChange_def)

lemma transfer_decompose:
  "\<exists>u. transfer keys f t w = dispatchChange (render (syncToOriginal u))
       \<and> options u = options w \<and> selectElement u = selectElement w
       \<and> availableSelect u = availableSelect w \<and> chosenSelect u = chosenSelect w
       \<and> availableFilter u = availableFilter w \<and> chosenFilter u = chosenFilter w
       \<and> filterMatchMode u = filterMatchMode w \<and> dispatched u = dispatched w"
  unfolding transfer_def Let_def
  by (rule exI, rule conjI, rule refl) simp

lemma render_panes:
  "availableSelect (render w) = renderFragment Available w"
  "chosenSelect (render w) = renderFragment Chosen w"
proof -
  have "availableSelect (render w) = select_of Available (renderPane Chosen (renderPane Available w))"
    by (simp add: render_def)
  also have "\<dots> = select_of Available (renderPane Available w)"
    by (rule renderPane_select_other) simp
  finally show "availableSelect (render w) = renderFragment Available w"
    by (simp only: renderPane_select)
  have "chosenSelect (render w) = select_of Chosen (renderPane Chosen (renderPane Available w))"
    by (simp add: render_def)
  also have "\<dots> = renderFragment Chosen (renderPane Available w)"
    by (simp only: renderPane_select)
  also have "\<dots> = renderFragment Chosen w"
  proof (rule renderFragment_cong)
    show "select_of Chosen (renderPane Available w) = select_of Chosen w"
      by (rule renderPane_select_other) simp
  qed simp_all
  finally show "chosenSelect (render w) = renderFragment Chosen w" .
qed

text \<open>
  C3. A transfer in a widget the events have led to. \<open>_transfer\<close> writes the
  selection back to the original \<open>select\<close>, then renders the two panes, then
  dispatches the \<open>change\<close> event, each once and in that order. When the event is
  dispatched, the original option at every position is selected exactly when its key is
  in the chosen partition as the transfer left it, and the panes hold the options
  rendered from the partitions as the transfer left them; the listeners are handed that
  state, and it is the state the transfer ends in.
\<close>

theorem transfer_sync_render_notify:
  assumes "w = run evs (init (fresh els sf mode pso))"
  shows "effects (transfer keys fromType toType w) =
           effects w @ [SyncToOriginal, RenderPane Available, RenderPane Chosen, DispatchChange]
       \<and> dispatched (transfer keys fromType toType w) =
           dispatched w @
             [\<lparr>n_selected = map (\<lambda>i. make_key i \<in> set (chosen (transfer keys fromType toType w)))
                             [0..<length els],
               n_available = renderFragment Available
                 (set_partition Available (available (transfer keys fromType toType w)) w),
               n_chosen = renderFragment Chosen
                 (set_partition Chosen (chosen (transfer keys fromType toType w)) w)\<rparr>]
       \<and> map o_selected (selectElement (transfer keys fromType toType w)) =
           map (\<lambda>i. make_key i \<in> set (chosen (transfer keys fromType toType w))) [0..<length els]
       \<and> availableSelect (transfer keys fromType toType w) =
           renderFragment Available
             (set_partition Available (available (transfer keys fromType toType w)) w)
       \<and> chosenSelect (transfer keys fromType toType w) =
           renderFragment Chosen
             (set_partition Chosen (chosen (transfer keys fromType toType w)) w)"
proof -
  let ?w' = "transfer keys fromType toType w"
  obtain u where u: "?w' = dispatchChange (render (syncToOriginal u))"
    "options u = options w" "selectElement u = selectElement w"
    "availableSelect u = availableSelect w" "chosenSelect u = chosenSelect w"
    "availableFilter u = availableFilter w" "chosenFilter u = chosenFilter w"
    "filterMatchMode u = filterMatchMode w" "dispatched u = dispatched w"
    using transfer_decompose[of keys fromType toType w] by blast
  let ?v = "syncToOriginal u"
  have av: "available ?w' = available u" and ch: "chosen ?w' = chosen u"
    by (simp_all add: u(1))
  have reg: "options u = map (\<lambda>(i, opt). (make_key i, make_meta opt i)) (List.enumerate 0 els)"
    by (simp add: u(2) assms init_options)
  have len: "length (selectElement u) = length els"
    by (simp add: u(3) assms)
  have flags: "map o_selected (selectElement ?v) =
      map (\<lambda>i. make_key i \<in> set (chosen ?w')) [0..<length els]"
    using syncToOriginal_selected[OF reg len] by (simp only: ch)
  have pa: "renderFragment Available ?v =
      renderFragment Available (set_partition Available (available ?w') w)"
    by (rule renderFragment_cong) (simp_all add: u av)
  have pc: "renderFragment Chosen ?v =
      renderFragment Chosen (set_partition Chosen (chosen ?w') w)"
    by (rule renderFragment_cong) (simp_all add: u ch)
  have 1: "effects ?w' =
      effects w @ [SyncToOriginal, RenderPane Available, RenderPane Chosen, DispatchChange]"
    by (rule transfer_effects)
  have 2: "dispatched ?w' = dispatched w @
      [\<lparr>n_selected = map (\<lambda>i. make_key i \<in> set (chosen ?w')) [0..<length els],
        n_available = renderFragment Available (set_partition Available (available ?w') w),
        n_chosen = renderFragment Chosen (set_partition Chosen (chosen ?w') w)\<rparr>]"
    unfolding u(1) dispatchChange_dispatched
    by (simp add: render_panes flags[unfolded u(1)] pa[unfolded u(1)] pc[unfolded u(1)] u(9))
  have 3: "map o_selected (selectElement ?w') =
      map (\<lambda>i. make_key i \<in> set (chosen ?w')) [0..<length els]"
    using flags by (simp add: u(1))
  have 4: "availableSelect ?w' =
      renderFragment Available (set_partition Available (available ?w') w)"
    using pa by (simp add: u(1) render_panes dispatchChange_def)
  have 5: "chosenSelect ?w' =
      renderFragment Chosen (set_partition Chosen (chosen ?w') w)"
    using pc by (simp add: u(1) render_panes dispatchChange_def)
  from 1 2 3 4 5 show ?thesis by (intro conjI)
qed

lemma demo_reached: "demo = run [] (init (fresh demo_select True ''contains'' False))"
  by (simp add: demo_def run_def)

lemma demo_transfer_flags:
  "dispatched demo = []
   \<and> map (\<lambda>i. make_key i \<in> set (chosen (transfer [''fsm-0''] Available Chosen demo)))
         [0..<length demo_select] = [True, False, True, False, False]"
  by code_simp

theorem transfer_sync_render_notify_witness:
  "demo = run [] (init (fresh demo_select True ''contains'' False))
   \<and> effects (transfer [''fsm-0''] Available Chosen demo) =
       [RenderPane Available, RenderPane Chosen,
        SyncToOriginal, RenderPane Available, RenderPane Chosen, DispatchChange]
   \<and> map n_selected (dispatched (transfer [''fsm-0''] Available Chosen demo))
       = [[True, False, True, False, False]]
   \<and> map o_selected (selectElement (transfer [''fsm-0''] Available Chosen demo))
       = [True, False, True, False, False]"
proof -
  note t = transfer_sync_render_notify[OF demo_reached, of "[''fsm-0'']" Available Chosen]
  have 1: "effects (transfer [''fsm-0''] Available Chosen demo) =
       [RenderPane Available, RenderPane Chosen,
        SyncToOriginal, RenderPane Available, RenderPane Chosen, DispatchChange]"
    using conjunct1[OF t] by (simp only: demo_effects append_Cons append_Nil)
  have 2: "map n_selected (dispatched (transfer [''fsm-0''] Available Chosen demo))
       = [[True, False, True, False, False]]"
    using conjunct1[OF conjunct2[OF t]] demo_transfer_flags by simp
  have 3: "map o_selected (selectElement (transfer [''fsm-0''] Available Chosen demo))
       = [True, False, True, False, False]"
    using conjunct1[OF conjunct2[OF conjunct2[OF t]]] demo_transfer_flags by simp
  from demo_reached 1 2 3 show ?thesis by (intro conjI)
qed

section \<open>A key of the registry in both partitions\<close>

lemma constructor_clash: "constructor (HTMLSelectElement True clash_select) default_config = Inr clash"
  by (simp add: constructor_def default_config_def clash_def)

text \<open>
  C1. The partitions after a transfer need not hold every key once. \<open>_renderPane\<close>
  writes the key of an item to \<open>dataset.key\<close> of the option it creates and then copies
  the \<open>data-*\<close> attributes of the original option over it. For the \<open>select\<close>
  \<open>clash_select\<close> the option shown for \<open>fsm-0\<close> so carries the key \<open>fsm-1\<close>, an
  enabled item of the chosen partition; selecting it and clicking "add selected" appends
  \<open>fsm-1\<close> to the chosen partition again and leaves \<open>fsm-0\<close> where it was.
\<close>

theorem partition_duplicate_key:
  "constructor (HTMLSelectElement True clash_select) default_config = Inr clash
   \<and> map fst (options clash) = [''fsm-0'', ''fsm-1'']
   \<and> available clash = [''fsm-0'']
   \<and> chosen clash = [''fsm-1'']
   \<and> map (\<lambda>opt. (o_text opt, map_of (o_dataset opt) ''key'')) (availableSelect clash)
       = [(''Apple'', Some ''fsm-1'')]
   \<and> clash_moved = handle (Click AddSelected) (handle (Change Available [0]) clash)
   \<and> map fst (options clash_moved) = [''fsm-0'', ''fsm-1'']
   \<and> available clash_moved = [''fsm-0'']
   \<and> chosen clash_moved = [''fsm-1'', ''fsm-1'']
   \<and> \<not> partition_complete clash_moved"
proof -
  have 1: "map fst (options clash) = [''fsm-0'', ''fsm-1'']
     \<and> available clash = [''fsm-0'']
     \<and> chosen clash = [''fsm-1'']
     \<and> map (\<lambda>opt. (o_text opt, map_of (o_dataset opt) ''key'')) (availableSelect clash)
         = [(''Apple'', Some ''fsm-1'')]"
    by code_simp
  have 2: "clash_moved = handle (Click AddSelected) (handle (Change Available [0]) clash)"
    by (simp add: clash_moved_def run_def)
  have 3: "map fst (options clash_moved) = [''fsm-0'', ''fsm-1'']
     \<and> available clash_moved = [''fsm-0'']
     \<and> chosen clash_moved = [''fsm-1'', ''fsm-1'']"
    by code_simp
  have 4: "\<not> partition_complete clash_moved"
    using 3 by (simp add: partition_complete_def)
  from constructor_clash 1 2 3 4 show ?thesis by (intro conjI) simp_all
qed

section \<open>Where the earlier copy differs\<close>

lemma updateButtons_earlier_fields [simp]:
  "options (updateButtons_earlier w) = options w"
  "available (updateButtons_earlier w) = available w"
  "chosen (updateButtons_earlier w) = chosen w"
  "preserveSelectionOrder (updateButtons_earlier w) = preserveSelectionOrder w"
  "effects (updateButtons_earlier w) = effects w"
  by (simp_all add: updateButtons_earlier_def Let_def)

lemma renderPane_earlier_fields [simp]:
  "options (renderPane_earlier p w) = options w"
  "available (renderPane_earlier p w) = available w"
  "chosen (renderPane_earlier p w) = chosen w"
  "preserveSelectionOrder (renderPane_earlier p w) = preserveSelectionOrder w"
  "effects (renderPane_earlier p w) = effects w @ [RenderPane p]"
  by (cases p; simp add: renderPane_earlier_def Let_def)+

lemma render_earlier_fields [simp]:
  "options (render_earlier w) = options w"
  "available (render_earlier w) = available w"
  "chosen (render_earlier w) = chosen w"
  "preserveSelectionOrder (render_earlier w) = preserveSelectionOrder w"
  "effects (render_earlier w) = effects w @ [RenderPane Available, RenderPane Chosen]"
  by (simp_all add: render_earlier_def)

lemma partition_of_render_earlier [simp]:
  "partition_of p (render_earlier w) = partition_of p w"
  by (cases p) simp_all

text \<open>The earlier \<open>_transfer\<close> renders the panes, then writes the selection back, then dispatches.\<close>

lemma transfer_earlier_effects:
  "effects (transfer_earlier keys f t w) =
     effects w @ [RenderPane Available, RenderPane Chosen, SyncToOriginal, DispatchChange]"
  by (simp add: transfer_earlier_def Let_def)

lemma transfer_earlier_partitions:
  "partition_of p (transfer_earlier keys f t w) = partition_of p (transfer keys f t w)"
  by (simp add: transfer_earlier_def transfer_def Let_def)

text \<open>The earlier \<open>_moveAll\<close> empties the partition, disabled items included.\<close>

lemma moveAll_earlier_from:
  assumes "f \<noteq> t"
  shows "partition_of f (moveAll_earlier f t w) = []"
proof (cases "partition_of f w = []")
  case True
  then show ?thesis by (simp add: moveAll_earlier_def)
next
  case False
  then show ?thesis
    using assms
    by (simp add: moveAll_earlier_def Let_def transfer_earlier_partitions transfer_from
        sortByIndex_def)
qed

lemma moveAll_earlier_demo:
  "available (moveAll_earlier Available Chosen demo) = []
   \<and> chosen (moveAll_earlier Available Chosen demo)
       = [''fsm-0'', ''fsm-1'', ''fsm-2'', ''fsm-3'', ''fsm-4'']"
  by code_simp

text \<open>The earlier \<open>_updateButtons\<close> enables "add all" whenever the available partition is not empty.\<close>

lemma updateButtons_earlier_bulk:
  "(\<not> buttons (updateButtons_earlier w) AddAll) = (available w \<noteq> [])
   \<and> (\<not> buttons (updateButtons_earlier w) RemoveAll) = (chosen w \<noteq> [])"
  by (simp add: updateButtons_earlier_def setButtonState_def Let_def)

end
